theory Spec2Isabelle
  imports Main "HOL-Library.Word" "HOL-Library.Sublist"
begin

unbundle bit_operations_syntax

section \<open>The RDM transaction engine of \<^verbatim>\<open>rdm.c\<close>\<close>

text \<open>
  A shallow embedding of \<^verbatim>\<open>firmware/src/rdm.c\<close>: the module's static variables are
  the fields of one record, every C function is a HOL function on that record, and the
  two things the module does to the outside world (driving bytes onto the RS485 bus and
  calling the response callback) are appended to a trace kept in the record.
\<close>

subsection \<open>Machine integers and constants (\<^verbatim>\<open>rdm.h\<close>, \<^verbatim>\<open>config.h\<close>)\<close>

type_synonym u8 = "8 word"
type_synonym u16 = "16 word"
type_synonym u32 = "32 word"

definition RDM_SC_RDM :: u8 where "RDM_SC_RDM = 0xCC"
definition RDM_SC_SUB_MESSAGE :: u8 where "RDM_SC_SUB_MESSAGE = 0x01"
definition RDM_MAX_PACKET_SIZE :: nat where "RDM_MAX_PACKET_SIZE = 257"
definition RDM_CC_DISC_COMMAND :: u8 where "RDM_CC_DISC_COMMAND = 0x10"
definition RDM_PID_DISC_UNIQUE_BRANCH :: u16 where "RDM_PID_DISC_UNIQUE_BRANCH = 0x0001"
definition RDM_PID_DISC_MUTE :: u16 where "RDM_PID_DISC_MUTE = 0x0002"
definition RDM_TOD_MAX_DEVICES :: nat where "RDM_TOD_MAX_DEVICES = 256"
definition RDM_RESPONSE_TIMEOUT_MS :: u32 where "RDM_RESPONSE_TIMEOUT_MS = 100"
definition RDM_RETRY_COUNT :: u8 where "RDM_RETRY_COUNT = 2"
definition RDM_DISCOVERY_INTERVAL_MS :: u32 where "RDM_DISCOVERY_INTERVAL_MS = 10000"
definition RDM_REQUEST_BUFFER_SIZE :: nat where "RDM_REQUEST_BUFFER_SIZE = 5"
definition RDM_RX_BUF_SIZE :: nat where "RDM_RX_BUF_SIZE = 512"

subsection \<open>Checksum and response validation\<close>

text \<open>
  \<^verbatim>\<open>rdm_checksum\<close>: the loop \<^verbatim>\<open>for (i = 0; i < len; i++) sum += data[i]\<close> on a
  \<^verbatim>\<open>uint16_t\<close> accumulator, which wraps modulo 65536.
\<close>

definition rdm_checksum :: "u8 list \<Rightarrow> u16 \<Rightarrow> u16" where
  "rdm_checksum data len = foldl (\<lambda>sum i. sum + ucast (data ! i)) 0 [0..<unat len]"

text \<open>
  \<^verbatim>\<open>rdm_validate_response(buf, len)\<close>. The sum \<^verbatim>\<open>msg_len + 2u\<close> is at most 257, so
  the cast to \<^verbatim>\<open>uint16_t\<close> loses nothing.
\<close>

definition rdm_validate_response :: "u8 list \<Rightarrow> u16 \<Rightarrow> bool" where
  "rdm_validate_response buf len =
     (if len < 4 then False
      else if buf ! 0 \<noteq> RDM_SC_RDM \<or> buf ! 1 \<noteq> RDM_SC_SUB_MESSAGE then False
      else let msg_len = buf ! 2 in
        if len < ucast msg_len + 2 then False
        else let calc = rdm_checksum buf (ucast msg_len);
                 recv = push_bit 8 (ucast (buf ! unat msg_len)) OR ucast (buf ! (unat msg_len + 1))
             in calc = recv)"

text \<open>
  The validity of a collected response \<open>r\<close> in the words of the specification: it begins
  with the two start-code bytes, the declared message length (byte 2) plus the two
  checksum bytes fits into what was collected, and the two bytes after the message, read
  big-endian, are the arithmetic sum of the message bytes modulo 65536.
\<close>

definition spec_response_valid :: "u8 list \<Rightarrow> bool" where
  "spec_response_valid r \<longleftrightarrow>
     3 \<le> length r \<and> r ! 0 = 0xCC \<and> r ! 1 = 0x01 \<and>
     (let m = unat (r ! 2) in
        m + 2 \<le> length r \<and>
        unat (r ! m) * 256 + unat (r ! (m + 1)) = sum_list (map unat (take m r)) mod 65536)"

subsection \<open>Data (\<^verbatim>\<open>rdm.h\<close> and the statics of \<^verbatim>\<open>rdm.c\<close>)\<close>

datatype rdm_state_t =
  SM_IDLE | SM_SENDING | SM_WAITING_RESPONSE | SM_RETRY | SM_DISCOVERY | SM_DONE

text \<open>
  \<^verbatim>\<open>rdm_uid_t\<close> wraps \<^verbatim>\<open>uint8_t bytes[6]\<close> and \<^verbatim>\<open>rdm_tod_entry_t\<close> wraps one UID: both
  are the list of their six bytes.
\<close>

type_synonym rdm_uid_t = "u8 list"
type_synonym rdm_tod_entry_t = rdm_uid_t

record rdm_request_t =
  data :: "u8 list"
  length_r :: u16
  src_ip :: u32
  src_port :: u16
  in_use :: bool

text \<open>
  What the module does to its environment: \<open>BusSend\<close> is one call of
  \<^verbatim>\<open>uart_write_blocking\<close> inside \<^verbatim>\<open>rdm_bus_send\<close>, with the bytes written;
  \<open>RespCb\<close> is one call of the registered response callback, with its four arguments
  (\<open>None\<close> is the \<^verbatim>\<open>NULL\<close> payload).
\<close>

datatype bus_event =
  BusSend "u8 list"
| RespCb "u8 list option" u16 u32 u16

text \<open>
  The module state. \<open>s_resp_cb\<close> holds whether a callback is registered (the pointer is
  not \<^verbatim>\<open>NULL\<close>); \<open>trace\<close> is the only field that is not a variable of the C module.
\<close>

record rdm =
  g_rdm_bus_busy :: bool
  s_req_buf :: "rdm_request_t list"
  s_req_head :: u8
  s_req_tail :: u8
  s_req_count :: u8
  s_state :: rdm_state_t
  s_retry :: u8
  s_timeout_start_ms :: u32
  s_active_idx :: u8
  s_resp_buf :: "u8 list"
  s_resp_len :: u16
  s_rx_buf :: "u8 list"
  s_rx_head :: u16
  s_rx_tail :: u16
  s_tod :: "rdm_tod_entry_t list"
  s_tod_count :: u16
  s_tod_changed :: bool
  s_tod_prev :: "rdm_tod_entry_t list"
  s_tod_prev_count :: u16
  s_discovery_last_ms :: u32
  s_discovery_active :: bool
  s_disc_tod_count :: u16
  s_resp_cb :: bool
  trace :: "bus_event list"

text \<open>The zero-initialised statics at program start.\<close>

definition rdm_boot :: rdm where
  "rdm_boot =
     \<lparr> g_rdm_bus_busy = False,
       s_req_buf = replicate RDM_REQUEST_BUFFER_SIZE
         \<lparr> data = replicate RDM_MAX_PACKET_SIZE 0, length_r = 0, src_ip = 0, src_port = 0,
           in_use = False \<rparr>,
       s_req_head = 0, s_req_tail = 0, s_req_count = 0,
       s_state = SM_IDLE, s_retry = 0, s_timeout_start_ms = 0, s_active_idx = 0,
       s_resp_buf = replicate RDM_MAX_PACKET_SIZE 0, s_resp_len = 0,
       s_rx_buf = replicate RDM_RX_BUF_SIZE 0, s_rx_head = 0, s_rx_tail = 0,
       s_tod = replicate RDM_TOD_MAX_DEVICES (replicate 6 0), s_tod_count = 0,
       s_tod_changed = False,
       s_tod_prev = replicate RDM_TOD_MAX_DEVICES (replicate 6 0), s_tod_prev_count = 0,
       s_discovery_last_ms = 0, s_discovery_active = False, s_disc_tod_count = 0,
       s_resp_cb = False, trace = [] \<rparr>"

text \<open>\<^verbatim>\<open>memset(&buf[off], v, n)\<close> and \<^verbatim>\<open>memcpy(&buf[off], src, n)\<close> on arrays as lists.\<close>

definition memset_at :: "'a list \<Rightarrow> nat \<Rightarrow> 'a \<Rightarrow> nat \<Rightarrow> 'a list" where
  "memset_at buf off v n = take off buf @ replicate n v @ drop (off + n) buf"

definition memcpy_at :: "'a list \<Rightarrow> nat \<Rightarrow> 'a list \<Rightarrow> nat \<Rightarrow> 'a list" where
  "memcpy_at buf off src n = take off buf @ take n src @ drop (off + n) buf"

subsection \<open>The receive ring buffer\<close>

text \<open>
  In \<^verbatim>\<open>(s_rx_tail + 1u) % RDM_RX_BUF_SIZE\<close> the 16-bit index is promoted to a 32-bit
  unsigned value before the addition, so the sum does not wrap at 16 bits.
\<close>

definition rx_push :: "u8 \<Rightarrow> rdm \<Rightarrow> rdm" where
  "rx_push b s =
     (let next = (of_nat ((unat (s_rx_tail s) + 1) mod RDM_RX_BUF_SIZE) :: u16) in
      if next \<noteq> s_rx_head s
      then s\<lparr> s_rx_buf := (s_rx_buf s)[unat (s_rx_tail s) := b], s_rx_tail := next \<rparr>
      else s)"

text \<open>\<^verbatim>\<open>rx_pop\<close> returns an \<^verbatim>\<open>int\<close>: \<open>-1\<close> when the ring is empty, the byte otherwise.\<close>

definition rx_pop :: "rdm \<Rightarrow> int \<times> rdm" where
  "rx_pop s =
     (if s_rx_head s = s_rx_tail s then (- 1, s)
      else let b = s_rx_buf s ! unat (s_rx_head s) in
        (uint b,
         s\<lparr> s_rx_head := of_nat ((unat (s_rx_head s) + 1) mod RDM_RX_BUF_SIZE) \<rparr>))"

text \<open>
  \<^verbatim>\<open>(s_rx_tail - s_rx_head + RDM_RX_BUF_SIZE) % RDM_RX_BUF_SIZE\<close>: the difference is taken
  on \<^verbatim>\<open>int\<close>, converted to 32-bit unsigned by the addition of \<^verbatim>\<open>512u\<close> and reduced
  modulo 512; as 512 divides \<open>2 ^ 32\<close> this is the mathematical residue.
\<close>

definition rx_available :: "rdm \<Rightarrow> u16" where
  "rx_available s =
     word_of_int ((uint (s_rx_tail s) - uint (s_rx_head s) + int RDM_RX_BUF_SIZE)
                    mod int RDM_RX_BUF_SIZE)"

definition rx_flush :: "rdm \<Rightarrow> rdm" where
  "rx_flush s = s\<lparr> s_rx_head := 0, s_rx_tail := 0 \<rparr>"

text \<open>
  \<^verbatim>\<open>uart1_irq_handler\<close>: pushes every byte the UART holds; \<open>fifo\<close> is what
  \<^verbatim>\<open>uart_getc\<close> yields while \<^verbatim>\<open>uart_is_readable\<close>.
\<close>

definition uart1_irq_handler :: "u8 list \<Rightarrow> rdm \<Rightarrow> rdm" where
  "uart1_irq_handler fifo s = foldl (\<lambda>s b. rx_push b s) s fifo"

subsection \<open>Bus transport\<close>

text \<open>
  \<^verbatim>\<open>rdm_bus_send\<close>: sets the busy flag, frames and writes \<open>len\<close> bytes of \<open>data\<close>,
  then flushes the ring (the echo). The break, mark-after-break and settle delays have
  no effect on the module state.
\<close>

definition rdm_bus_send :: "u8 list \<Rightarrow> u16 \<Rightarrow> rdm \<Rightarrow> rdm" where
  "rdm_bus_send dat len s =
     rx_flush (s\<lparr> g_rdm_bus_busy := True,
                  trace := trace s @ [BusSend (take (unat len) dat)] \<rparr>)"

text \<open>
  \<^verbatim>\<open>rdm_bus_receive(buf, max_len, timeout_ms)\<close> polls \<^verbatim>\<open>rx_pop\<close> until the timeout.
  The second argument of the model is what has been collected so far (\<^verbatim>\<open>buf[0..n)\<close>),
  the third the bytes that \<^verbatim>\<open>rx_pop\<close> yields, in order, before the timeout expires;
  the result is the collected bytes, whose number is the C return value. The ring
  indices it leaves behind are not tracked: every later reader of the ring in this
  module runs after \<^verbatim>\<open>rx_flush\<close>.
\<close>

fun rdm_bus_receive :: "nat \<Rightarrow> u8 list \<Rightarrow> u8 list \<Rightarrow> u8 list" where
  "rdm_bus_receive max_len buf [] = buf"
| "rdm_bus_receive max_len buf (b # arriving) =
     (if length buf < max_len then
        (let buf' = buf @ [b]; n = length buf' in
         if 3 \<le> n \<and> buf' ! 0 = RDM_SC_RDM \<and> buf' ! 1 = RDM_SC_SUB_MESSAGE
            \<and> n = unat (buf' ! 2) + 2
         then buf'
         else rdm_bus_receive max_len buf' arriving)
      else buf)"

subsection \<open>Discovery\<close>

definition s_disc_lower :: "u8 list" where
  "s_disc_lower = [0x00, 0x00, 0x00, 0x00, 0x00, 0x00]"

definition s_disc_upper :: "u8 list" where
  "s_disc_upper = [0xFF, 0xFF, 0xFF, 0xFF, 0xFF, 0xFF]"

definition build_disc_unique_branch :: "u8 list \<Rightarrow> u8 list \<Rightarrow> u8 list \<times> u16" where
  "build_disc_unique_branch lower upper =
     (let buf = replicate RDM_MAX_PACKET_SIZE (0 :: u8);
          buf = buf[0 := RDM_SC_RDM, 1 := RDM_SC_SUB_MESSAGE, 2 := 36];
          buf = memset_at buf 3 0xFF 6;
          buf = memset_at buf 9 0x00 6;
          buf = buf[15 := 0, 16 := 0, 17 := 0, 18 := 0, 19 := 0,
                    20 := RDM_CC_DISC_COMMAND,
                    21 := ucast (drop_bit 8 RDM_PID_DISC_UNIQUE_BRANCH),
                    22 := ucast (RDM_PID_DISC_UNIQUE_BRANCH AND 0xFF),
                    23 := 12];
          buf = memcpy_at buf 24 lower 6;
          buf = memcpy_at buf 30 upper 6;
          chk = rdm_checksum buf 36;
          buf = buf[36 := ucast (drop_bit 8 chk), 37 := ucast (chk AND 0xFF)]
      in (buf, 38))"

definition build_disc_mute :: "u8 list \<Rightarrow> u8 list \<times> u16" where
  "build_disc_mute uid =
     (let buf = replicate RDM_MAX_PACKET_SIZE (0 :: u8);
          buf = buf[0 := RDM_SC_RDM, 1 := RDM_SC_SUB_MESSAGE, 2 := 24];
          buf = memcpy_at buf 3 uid 6;
          buf = memset_at buf 9 0x00 6;
          buf = buf[15 := 0, 16 := 0, 17 := 0, 18 := 0, 19 := 0,
                    20 := RDM_CC_DISC_COMMAND,
                    21 := ucast (drop_bit 8 RDM_PID_DISC_MUTE),
                    22 := ucast (RDM_PID_DISC_MUTE AND 0xFF),
                    23 := 0];
          chk = rdm_checksum buf 24;
          buf = buf[24 := ucast (drop_bit 8 chk), 25 := ucast (chk AND 0xFF)]
      in (buf, 26))"

definition disc_tod_add :: "u8 list \<Rightarrow> rdm \<Rightarrow> rdm" where
  "disc_tod_add uid s =
     (if unat (s_disc_tod_count s) \<ge> RDM_TOD_MAX_DEVICES then s
      else s\<lparr> s_tod := (s_tod s)[unat (s_disc_tod_count s) := take 6 uid],
               s_disc_tod_count := s_disc_tod_count s + 1 \<rparr>)"

text \<open>
  The inner loop of \<^verbatim>\<open>run_discovery_cycle\<close> that fills \<^verbatim>\<open>uid[6]\<close> from the reply:
  \<open>i\<close> is the loop counter, \<open>uid\<close> the array so far. A reply shorter than
  \<^verbatim>\<open>DISC_RESP_MIN_LEN\<close> zeroes the array and leaves the loop.
\<close>

function disc_decode_uid :: "u8 list \<Rightarrow> nat \<Rightarrow> nat \<Rightarrow> u8 list \<Rightarrow> u8 list" where
  "disc_decode_uid resp resp_len i uid =
     (if i < 6 then
        (if resp_len \<ge> 17
         then disc_decode_uid resp resp_len (i + 1)
                (uid[i := (resp ! (1 + i * 2) AND 0x0F)
                            OR push_bit 4 (resp ! (1 + 1 + i * 2) AND 0x0F)])
         else replicate 6 0)
      else uid)"
  by pat_completeness auto
termination
  by (relation "measure (\<lambda>(resp, resp_len, i, uid). 6 - i)") auto

text \<open>
  The bus as the discovery cycle sees it: given everything sent so far in this cycle,
  the bytes that arrive in the receive window that follows.
\<close>

type_synonym bus = "bus_event list \<Rightarrow> u8 list"

text \<open>
  The \<^verbatim>\<open>for (attempt = 0; attempt < 64; attempt++)\<close> loop of \<^verbatim>\<open>run_discovery_cycle\<close>.
  \<open>n0\<close> is the length of the trace when the cycle began, so that
  \<open>drop n0 (trace s)\<close> is what this cycle has sent.
\<close>

function disc_loop :: "bus \<Rightarrow> nat \<Rightarrow> u8 \<Rightarrow> rdm \<Rightarrow> rdm" where
  "disc_loop bus n0 attempt s =
     (if attempt < 64 then
        (let (pkt, pkt_len) = build_disc_unique_branch s_disc_lower s_disc_upper;
             s = rdm_bus_send pkt pkt_len s;
             resp = rdm_bus_receive RDM_MAX_PACKET_SIZE [] (bus (drop n0 (trace s)));
             resp_len = length resp
         in if resp_len < 7 then s
            else
              (let uid = disc_decode_uid resp resp_len 0 (replicate 6 0);
                   (pkt, mute_len) = build_disc_mute uid;
                   s = rdm_bus_send pkt mute_len s;
                   mute_resp = rdm_bus_receive RDM_MAX_PACKET_SIZE [] (bus (drop n0 (trace s)));
                   s = disc_tod_add uid s
               in disc_loop bus n0 (attempt + 1) s))
      else s)"
  by pat_completeness auto
termination
proof (relation "measure (\<lambda>(bus, n0, attempt, s). 64 - unat attempt)")
  show "wf (measure (\<lambda>(bus, n0, attempt, s). 64 - unat (attempt :: u8)))" by simp
next
  fix attempt :: u8
  assume "attempt < 64"
  then have "unat attempt < 64" by (simp add: word_less_nat_alt)
  then have "unat (attempt + 1) = unat attempt + 1" by (simp add: unat_word_ariths)
  with \<open>unat attempt < 64\<close>
  show "\<And>bus n0 s x xa y xb xc xd xe xf ya xg xh xi.
          ((bus, n0, attempt + 1, xi), (bus, n0, attempt, s))
            \<in> measure (\<lambda>(bus, n0, attempt, s). 64 - unat (attempt :: u8))"
    by simp
qed

definition run_discovery_cycle :: "bus \<Rightarrow> rdm \<Rightarrow> rdm" where
  "run_discovery_cycle bus s =
     disc_loop bus (length (trace s)) 0 (s\<lparr> s_disc_tod_count := 0, g_rdm_bus_busy := True \<rparr>)"

subsection \<open>Public API\<close>

text \<open>
  \<^verbatim>\<open>rdm_enqueue_request\<close>: \<^verbatim>\<open>memcpy(slot->data, data, length)\<close> overwrites the first
  \<open>length\<close> bytes of the slot and leaves the rest of its array as it was.
\<close>

definition rdm_enqueue_request :: "u8 list \<Rightarrow> u16 \<Rightarrow> u32 \<Rightarrow> u16 \<Rightarrow> rdm \<Rightarrow> bool \<times> rdm" where
  "rdm_enqueue_request dat len ip port s =
     (if unat (s_req_count s) \<ge> RDM_REQUEST_BUFFER_SIZE then (False, s)
      else if unat len > RDM_MAX_PACKET_SIZE then (False, s)
      else
        (let slot = s_req_buf s ! unat (s_req_tail s);
             slot = slot\<lparr> data := memcpy_at (data slot) 0 dat (unat len),
                          length_r := len, src_ip := ip, src_port := port, in_use := True \<rparr>
         in (True,
             s\<lparr> s_req_buf := (s_req_buf s)[unat (s_req_tail s) := slot],
                s_req_tail := of_nat ((unat (s_req_tail s) + 1) mod RDM_REQUEST_BUFFER_SIZE),
                s_req_count := s_req_count s + 1 \<rparr>)))"

definition rdm_set_response_callback :: "bool \<Rightarrow> rdm \<Rightarrow> rdm" where
  "rdm_set_response_callback cb s = s\<lparr> s_resp_cb := cb \<rparr>"

text \<open>
  \<^verbatim>\<open>rdm_get_tod\<close> hands out a pointer to the table and the count: the result is the
  array and the count, with the state after the call.
\<close>

definition rdm_get_tod :: "rdm \<Rightarrow> (rdm_tod_entry_t list \<times> u16) \<times> rdm" where
  "rdm_get_tod s = ((s_tod s, s_tod_count s), s\<lparr> s_tod_changed := False \<rparr>)"

definition rdm_flush_tod :: "rdm \<Rightarrow> rdm" where
  "rdm_flush_tod s = s\<lparr> s_tod_count := 0, s_tod_changed := True, s_discovery_last_ms := 0 \<rparr>"

definition rdm_tod_changed :: "rdm \<Rightarrow> bool" where
  "rdm_tod_changed s = s_tod_changed s"

text \<open>\<^verbatim>\<open>rdm_init\<close>: flushes the ring and zeroes the request slots.\<close>

definition rdm_init :: "rdm \<Rightarrow> rdm" where
  "rdm_init s =
     (rx_flush s)\<lparr> s_req_buf := replicate RDM_REQUEST_BUFFER_SIZE
        \<lparr> data = replicate RDM_MAX_PACKET_SIZE 0, length_r = 0, src_ip = 0, src_port = 0,
          in_use = False \<rparr> \<rparr>"

subsection \<open>The main-loop task\<close>

text \<open>
  The byte-collecting loop of the \<^verbatim>\<open>SM_WAITING_RESPONSE\<close> branch:
  \<^verbatim>\<open>while (rx_available() > 0u && s_resp_len < RDM_MAX_PACKET_SIZE)\<close>.
\<close>

function collect_response :: "rdm \<Rightarrow> rdm" where
  "collect_response s =
     (if rx_available s > 0 \<and> unat (s_resp_len s) < RDM_MAX_PACKET_SIZE then
        (let (b, s1) = rx_pop s in
         collect_response
           (if b \<ge> 0
            then s1\<lparr> s_resp_buf := (s_resp_buf s1)[unat (s_resp_len s1) := word_of_int b],
                     s_resp_len := s_resp_len s1 + 1 \<rparr>
            else s1))
      else s)"
  by pat_completeness auto
termination
proof (relation "measure (\<lambda>s. RDM_MAX_PACKET_SIZE - unat (s_resp_len s))")
  show "wf (measure (\<lambda>s. RDM_MAX_PACKET_SIZE - unat (s_resp_len s)))" by simp
next
  fix s :: rdm and x :: "int \<times> rdm" and b :: int and s1 :: rdm
  assume a: "0 < rx_available s \<and> unat (s_resp_len s) < RDM_MAX_PACKET_SIZE"
    and x: "x = rx_pop s" and p: "(b, s1) = x"
  from a have ne: "s_rx_head s \<noteq> s_rx_tail s"
    by (auto simp: rx_available_def RDM_RX_BUF_SIZE_def)
  with x p have b: "b \<ge> 0" and l: "s_resp_len s1 = s_resp_len s"
    by (auto simp: rx_pop_def Let_def)
  from a have "unat (s_resp_len s) < 257" by (simp add: RDM_MAX_PACKET_SIZE_def)
  then have "unat (s_resp_len s + 1) = unat (s_resp_len s) + 1"
    by (simp add: unat_word_ariths)
  with a b l
  show "(if 0 \<le> b
         then s1\<lparr> s_resp_buf := (s_resp_buf s1)[unat (s_resp_len s1) := word_of_int b],
                  s_resp_len := s_resp_len s1 + 1 \<rparr>
         else s1, s) \<in> measure (\<lambda>s. RDM_MAX_PACKET_SIZE - unat (s_resp_len s))"
    by (simp add: RDM_MAX_PACKET_SIZE_def, arith)
qed

text \<open>
  What one call of \<^verbatim>\<open>rdm_task\<close> reads from outside the module: the clock at entry
  (\<^verbatim>\<open>now_ms\<close>), the clock at the one later read that the branch taken makes, and the bus
  as a discovery cycle would find it.
\<close>

record tick_env =
  now_ms :: u32
  now_later :: u32
  disc_bus :: bus

definition rdm_task :: "tick_env \<Rightarrow> rdm \<Rightarrow> rdm" where
  "rdm_task env s0 =
     (let s = (if s_state s0 = SM_IDLE \<and> s_req_count s0 > 0
               then s0\<lparr> s_active_idx := s_req_head s0, s_retry := 0, s_state := SM_SENDING \<rparr>
               else s0)
      in
      if s_state s = SM_SENDING then
        (let req = s_req_buf s ! unat (s_active_idx s);
             s = rx_flush s;
             s = rdm_bus_send (data req) (length_r req) s
         in s\<lparr> s_timeout_start_ms := now_later env, s_resp_len := 0,
                s_state := SM_WAITING_RESPONSE \<rparr>)
      else if s_state s = SM_WAITING_RESPONSE then
        (let elapsed = now_later env - s_timeout_start_ms s;
             s = collect_response s;
             valid = rdm_validate_response (s_resp_buf s) (s_resp_len s)
         in if valid \<or> elapsed \<ge> RDM_RESPONSE_TIMEOUT_MS then
              (if \<not> valid \<and> s_retry s < RDM_RETRY_COUNT
               then s\<lparr> s_retry := s_retry s + 1, s_state := SM_SENDING \<rparr>
               else
                 (let req = s_req_buf s ! unat (s_active_idx s);
                      s = (if s_resp_cb s then
                             (if valid
                              then s\<lparr> trace := trace s @
                                     [RespCb (Some (take (unat (s_resp_len s)) (s_resp_buf s)))
                                        (s_resp_len s) (src_ip req) (src_port req)] \<rparr>
                              else s\<lparr> trace := trace s @
                                     [RespCb None 0 (src_ip req) (src_port req)] \<rparr>)
                           else s)
                  in s\<lparr> s_req_buf := (s_req_buf s)[unat (s_active_idx s)
                                           := req\<lparr> in_use := False \<rparr>],
                         s_req_head := of_nat ((unat (s_req_head s) + 1)
                                                 mod RDM_REQUEST_BUFFER_SIZE),
                         s_req_count := s_req_count s - 1,
                         s_state := SM_IDLE,
                         g_rdm_bus_busy := False \<rparr>))
            else s)
      else
        (let s = (if s_state s = SM_IDLE \<and> \<not> s_discovery_active s
                     \<and> now_ms env - s_discovery_last_ms s \<ge> RDM_DISCOVERY_INTERVAL_MS
                  then s\<lparr> s_discovery_active := True \<rparr> else s)
         in if s_state s = SM_IDLE \<and> s_discovery_active s then
              (let s = s\<lparr> s_tod_prev := memcpy_at (s_tod_prev s) 0 (s_tod s)
                                            (unat (s_tod_count s)),
                          s_tod_prev_count := s_tod_count s \<rparr>;
                   s = run_discovery_cycle (disc_bus env) s;
                   s = s\<lparr> s_tod_count := s_disc_tod_count s \<rparr>;
                   s = (if s_tod_count s \<noteq> s_tod_prev_count s
                           \<or> take (unat (s_tod_count s)) (s_tod s)
                               \<noteq> take (unat (s_tod_count s)) (s_tod_prev s)
                        then s\<lparr> s_tod_changed := True \<rparr> else s)
               in s\<lparr> s_discovery_last_ms := now_later env,
                      s_discovery_active := False,
                      g_rdm_bus_busy := False \<rparr>)
            else s))"

subsection \<open>Everything that can happen to the module\<close>

text \<open>
  The callers of the module are the main loop (\<^verbatim>\<open>rdm_task\<close>), the Art-Net layer (the
  public API) and the UART receive interrupt. The module is single-threaded apart from
  the interrupt, which is taken here between two calls.
\<close>

datatype rdm_op =
  Tick tick_env
| Enqueue "u8 list" u16 u32 u16
| GetTod
| FlushTod
| TodChanged
| Irq "u8 list"
| SetCallback bool

fun step :: "rdm_op \<Rightarrow> rdm \<Rightarrow> rdm" where
  "step (Tick env) s = rdm_task env s"
| "step (Enqueue dat len ip port) s = snd (rdm_enqueue_request dat len ip port s)"
| "step GetTod s = snd (rdm_get_tod s)"
| "step FlushTod s = rdm_flush_tod s"
| "step TodChanged s = s"
| "step (Irq fifo) s = uart1_irq_handler fifo s"
| "step (SetCallback cb) s = rdm_set_response_callback cb s"

definition run :: "rdm_op list \<Rightarrow> rdm \<Rightarrow> rdm" where
  "run ops s = foldl (\<lambda>s op. step op s) s ops"

subsection \<open>The receive ring as a queue\<close>

text \<open>
  A sequence of pushes (the interrupt handler) and pops (the polling code) on the ring;
  the result lists what each \<^verbatim>\<open>rx_pop\<close> returned.
\<close>

datatype rx_op = RxPush u8 | RxPop

fun rx_run :: "rx_op list \<Rightarrow> rdm \<Rightarrow> int list \<times> rdm" where
  "rx_run [] s = ([], s)"
| "rx_run (RxPush b # ops) s = rx_run ops (rx_push b s)"
| "rx_run (RxPop # ops) s =
     (let (r, s1) = rx_pop s; (rs, s2) = rx_run ops s1 in (r # rs, s2))"

text \<open>The ring's indices are in range and its array has its 512 slots.\<close>

definition rx_wf :: "rdm \<Rightarrow> bool" where
  "rx_wf s \<longleftrightarrow> unat (s_rx_head s) < RDM_RX_BUF_SIZE \<and> unat (s_rx_tail s) < RDM_RX_BUF_SIZE
     \<and> length (s_rx_buf s) = RDM_RX_BUF_SIZE"

text \<open>The unread bytes of the ring, oldest first.\<close>

definition rx_count :: "rdm \<Rightarrow> nat" where
  "rx_count s = (unat (s_rx_tail s) + RDM_RX_BUF_SIZE - unat (s_rx_head s)) mod RDM_RX_BUF_SIZE"

definition rx_contents :: "rdm \<Rightarrow> u8 list" where
  "rx_contents s =
     map (\<lambda>i. s_rx_buf s ! ((unat (s_rx_head s) + i) mod RDM_RX_BUF_SIZE)) [0..<rx_count s]"

text \<open>The condition under which \<^verbatim>\<open>rx_push\<close> stores nothing.\<close>

definition rx_full :: "rdm \<Rightarrow> bool" where
  "rx_full s \<longleftrightarrow>
     (of_nat ((unat (s_rx_tail s) + 1) mod RDM_RX_BUF_SIZE) :: u16) = s_rx_head s"

text \<open>
  The queue the specification describes: first in, first out, a push onto a queue that
  holds \<open>cap\<close> bytes is dropped, a pop from an empty queue returns \<open>-1\<close>.
\<close>

fun fifo_run :: "nat \<Rightarrow> rx_op list \<Rightarrow> u8 list \<Rightarrow> int list \<times> u8 list" where
  "fifo_run cap [] q = ([], q)"
| "fifo_run cap (RxPush b # ops) q = fifo_run cap ops (if length q < cap then q @ [b] else q)"
| "fifo_run cap (RxPop # ops) q =
     (case q of
        [] \<Rightarrow> (let (rs, q') = fifo_run cap ops [] in (- 1 # rs, q'))
      | x # q1 \<Rightarrow> (let (rs, q') = fifo_run cap ops q1 in (uint x # rs, q')))"

text \<open>The bytes a sequence of operations pushes, and the bytes a list of pop results holds.\<close>

fun pushed :: "rx_op list \<Rightarrow> u8 list" where
  "pushed [] = []"
| "pushed (RxPush b # ops) = b # pushed ops"
| "pushed (RxPop # ops) = pushed ops"

definition popped :: "int list \<Rightarrow> u8 list" where
  "popped rs = map word_of_int (filter (\<lambda>r. r \<ge> 0) rs)"

subsection \<open>Notions used to state the properties\<close>

text \<open>The two kinds of packet a discovery cycle sends, as they appear on the bus.\<close>

definition disc_branch_pkt :: "u8 list" where
  "disc_branch_pkt = take 38 (fst (build_disc_unique_branch s_disc_lower s_disc_upper))"

definition disc_mute_pkt :: "u8 list \<Rightarrow> u8 list" where
  "disc_mute_pkt uid = take 26 (fst (build_disc_mute uid))"

text \<open>
  The condition under which a call of \<^verbatim>\<open>rdm_task\<close> reaches \<^verbatim>\<open>run_discovery_cycle\<close>:
  idle, nothing queued, and the interval elapsed (or the active flag already set).
\<close>

definition runs_discovery :: "tick_env \<Rightarrow> rdm \<Rightarrow> bool" where
  "runs_discovery env s \<longleftrightarrow>
     s_state s = SM_IDLE \<and> s_req_count s = 0 \<and>
     (s_discovery_active s \<or> now_ms env - s_discovery_last_ms s \<ge> RDM_DISCOVERY_INTERVAL_MS)"

text \<open>
  What \<^verbatim>\<open>rdm_validate_response\<close> answers in the \<^verbatim>\<open>SM_WAITING_RESPONSE\<close> branch of a
  call made in state \<open>s\<close>, that is after the bytes in the ring have been collected.
\<close>

definition response_valid_now :: "rdm \<Rightarrow> bool" where
  "response_valid_now s =
     rdm_validate_response (s_resp_buf (collect_response s)) (s_resp_len (collect_response s))"

text \<open>The state with the fields a discovery cycle writes blanked out.\<close>

definition disc_erase :: "rdm \<Rightarrow> rdm" where
  "disc_erase s =
     s\<lparr>g_rdm_bus_busy := False, s_rx_head := 0, s_rx_tail := 0, s_tod := [],
       s_disc_tod_count := 0, trace := []\<rparr>"

text \<open>
  The comparison \<^verbatim>\<open>rdm_task\<close> makes after a discovery cycle, read off the state the
  call leaves: the new count against the saved one, and the new entries against the
  saved copy (\<^verbatim>\<open>memcmp\<close> over the new count).
\<close>

definition tod_differs :: "rdm \<Rightarrow> bool" where
  "tod_differs s \<longleftrightarrow>
     s_tod_count s \<noteq> s_tod_prev_count s \<or>
     take (unat (s_tod_count s)) (s_tod s) \<noteq> take (unat (s_tod_count s)) (s_tod_prev s)"

text \<open>
  The operations that write the table: a call of the task that runs a discovery cycle,
  and the flush. A sequence of operations is quiet when none of them, in the state it
  is applied to, is one of these.
\<close>

fun writes_tod :: "rdm_op \<Rightarrow> rdm \<Rightarrow> bool" where
  "writes_tod (Tick env) s = runs_discovery env s"
| "writes_tod FlushTod s = True"
| "writes_tod _ s = False"

fun tod_quiet :: "rdm_op list \<Rightarrow> rdm \<Rightarrow> bool" where
  "tod_quiet [] s = True"
| "tod_quiet (op # ops) s = (\<not> writes_tod op s \<and> tod_quiet ops (step op s))"

text \<open>
  A queued request as its transaction uses it: the bytes sent, and the requester's
  address and port.
\<close>

definition req_view :: "rdm_request_t \<Rightarrow> u8 list \<times> u32 \<times> u16" where
  "req_view r = (take (unat (length_r r)) (data r), src_ip r, src_port r)"

text \<open>The queued requests, oldest first: the slots from the head index on.\<close>

definition pending :: "rdm \<Rightarrow> (u8 list \<times> u32 \<times> u16) list" where
  "pending s =
     map (\<lambda>i. req_view (s_req_buf s ! ((unat (s_req_head s) + i) mod RDM_REQUEST_BUFFER_SIZE)))
       [0..<unat (s_req_count s)]"

text \<open>
  The invariant of the request queue and the state machine: five slots, the indices in
  range, the tail \<open>count\<close> slots after the head, only the three states the code assigns,
  and outside the idle state the active slot is the head of a non-empty queue.
\<close>

definition eng_inv :: "rdm \<Rightarrow> bool" where
  "eng_inv s \<longleftrightarrow>
     length (s_req_buf s) = RDM_REQUEST_BUFFER_SIZE \<and>
     unat (s_req_head s) < RDM_REQUEST_BUFFER_SIZE \<and>
     unat (s_req_count s) \<le> RDM_REQUEST_BUFFER_SIZE \<and>
     unat (s_req_tail s) = (unat (s_req_head s) + unat (s_req_count s)) mod RDM_REQUEST_BUFFER_SIZE \<and>
     (s_state s = SM_IDLE \<or>
      (s_state s = SM_SENDING \<or> s_state s = SM_WAITING_RESPONSE) \<and>
      s_active_idx s = s_req_head s \<and> s_req_count s \<noteq> 0)"

text \<open>The response timeout has expired at the clock reading of this call.\<close>

definition timed_out :: "tick_env \<Rightarrow> rdm \<Rightarrow> bool" where
  "timed_out env s \<longleftrightarrow> now_later env - s_timeout_start_ms s \<ge> RDM_RESPONSE_TIMEOUT_MS"

text \<open>
  A sequence of operations that carries exactly one transaction to its end: the state
  machine is back in the idle state after the last operation and not before.
\<close>

fun completes :: "rdm_op list \<Rightarrow> rdm \<Rightarrow> bool" where
  "completes [] s = False"
| "completes (op # ops) s =
     (if s_state (step op s) = SM_IDLE then ops = [] else completes ops (step op s))"

fun is_tick :: "rdm_op \<Rightarrow> bool" where
  "is_tick (Tick env) = True"
| "is_tick _ = False"

text \<open>
  Some call of the task during the sequence finds the collected response valid.
\<close>

fun validates_at :: "rdm_op \<Rightarrow> rdm \<Rightarrow> bool" where
  "validates_at (Tick env) s = (s_state s = SM_WAITING_RESPONSE \<and> response_valid_now s)"
| "validates_at _ s = False"

fun ever_validates :: "rdm_op list \<Rightarrow> rdm \<Rightarrow> bool" where
  "ever_validates [] s = False"
| "ever_validates (op # ops) s = (validates_at op s \<or> ever_validates ops (step op s))"

text \<open>
  Scenarios of the specification, as data. A 26-byte GET request addressed to the UID
  00:11:22:33:44:55, with its checksum, queued by the requester 10.0.0.2:6454 on the
  freshly booted module with a callback registered. In the echo scenario the bus
  echoes the 26 bytes before the second call of the task.
\<close>

definition scenario_request :: "u8 list" where
  "scenario_request =
     [0xCC, 0x01, 0x18, 0x00, 0x11, 0x22, 0x33, 0x44, 0x55, 0x00, 0x00, 0x00, 0x00, 0x00,
      0x00, 0x00, 0x01, 0x00, 0x00, 0x00, 0x20, 0x00, 0x60, 0x00, 0x02, 0x65]"

definition scenario_start :: rdm where
  "scenario_start =
     snd (rdm_enqueue_request scenario_request 26 0x0A000002 6454
            (rdm_set_response_callback True rdm_boot))"

definition at_ms :: "u32 \<Rightarrow> tick_env" where
  "at_ms t = \<lparr>now_ms = t, now_later = t, disc_bus = (\<lambda>sent. [])\<rparr>"

definition scenario_echo :: "rdm_op list" where
  "scenario_echo = [Irq scenario_request, Tick (at_ms 5)]"

text \<open>
  A state in the middle of a transaction: waiting, with the 26 bytes of a valid
  response and three more bytes collected.
\<close>

definition scenario_trailing_wait :: rdm where
  "scenario_trailing_wait =
     rdm_boot\<lparr>s_state := SM_WAITING_RESPONSE, s_resp_cb := True,
              s_req_buf := [\<lparr>data = scenario_request, length_r = 26, src_ip = 0x0A000002,
                              src_port = 6454, in_use = True\<rparr>],
              s_req_count := 1,
              s_resp_buf := scenario_request @ [1, 2, 3], s_resp_len := 29,
              trace := [BusSend scenario_request]\<rparr>"

text \<open>
  A simulated bus. A device is given by the bytes of its reply to a unique-branch
  request; \<open>collected\<close> is what \<^verbatim>\<open>rdm_bus_receive\<close> makes of them and \<open>dev_uid\<close> the
  UID the discovery cycle decodes from that. After a unique-branch request the first
  device that has not been sent a mute command for its UID in this cycle replies; the
  others stay silent, and nothing answers a mute command.
\<close>

definition collected :: "u8 list \<Rightarrow> u8 list" where
  "collected d = rdm_bus_receive RDM_MAX_PACKET_SIZE [] d"

definition dev_uid :: "u8 list \<Rightarrow> u8 list" where
  "dev_uid d = disc_decode_uid (collected d) (length (collected d)) 0 (replicate 6 0)"

definition sim_bus :: "u8 list list \<Rightarrow> bus" where
  "sim_bus devs sent =
     (if sent \<noteq> [] \<and> last sent = BusSend disc_branch_pkt
      then (case filter (\<lambda>d. BusSend (disc_mute_pkt (dev_uid d)) \<notin> set sent) devs of
              [] \<Rightarrow> []
            | d # _ \<Rightarrow> d)
      else [])"

text \<open>
  The devices are well formed: each reply is collected with at least 17 bytes, and the
  decoded UIDs are pairwise different.
\<close>

definition well_formed_devices :: "u8 list list \<Rightarrow> bool" where
  "well_formed_devices devs \<longleftrightarrow>
     (\<forall>d \<in> set devs. 17 \<le> length (collected d)) \<and> distinct (map dev_uid devs)"

text \<open>What a cycle has sent after \<open>j\<close> devices were found: a request and a mute each.\<close>

definition disc_sent :: "u8 list list \<Rightarrow> nat \<Rightarrow> bus_event list" where
  "disc_sent devs j =
     concat (map (\<lambda>d. [BusSend disc_branch_pkt, BusSend (disc_mute_pkt (dev_uid d))])
               (take j devs))"

text \<open>The number of unique-branch requests among the events.\<close>

definition branch_attempts :: "bus_event list \<Rightarrow> nat" where
  "branch_attempts evs = count_list evs (BusSend disc_branch_pkt)"

text \<open>
  Concrete devices for the examples: device \<open>i\<close> replies with 17 bytes from which
  the cycle decodes the UID \<open>i, 0, 0, 0, 0, 0\<close>.
\<close>

definition sim_device :: "nat \<Rightarrow> u8 list" where
  "sim_device i = [0xAA, of_nat (i mod 16), of_nat (i div 16)] @ replicate 14 0"

text \<open>
  One pass through the body of the discovery loop, in pieces: the state after the
  unique-branch request is sent, the reply then collected, and the state after the mute
  command for \<open>uid\<close> is sent and \<open>uid\<close> is added to the table.
\<close>

definition after_branch :: "rdm \<Rightarrow> rdm" where
  "after_branch s =
     rdm_bus_send (fst (build_disc_unique_branch s_disc_lower s_disc_upper)) 38 s"

definition branch_reply :: "bus \<Rightarrow> nat \<Rightarrow> rdm \<Rightarrow> u8 list" where
  "branch_reply bus n0 s =
     rdm_bus_receive RDM_MAX_PACKET_SIZE [] (bus (drop n0 (trace (after_branch s))))"

definition after_mute :: "u8 list \<Rightarrow> rdm \<Rightarrow> rdm" where
  "after_mute uid s =
     disc_tod_add uid (rdm_bus_send (fst (build_disc_mute uid)) 26 (after_branch s))"

text \<open>
  The freshly booted module after one call of the task that ran a discovery cycle on a
  bus with two devices.
\<close>

definition tod_two_devices :: rdm where
  "tod_two_devices =
     rdm_task \<lparr>now_ms = 10000, now_later = 10030,
               disc_bus = sim_bus [sim_device 1, sim_device 2]\<rparr> rdm_boot"

text \<open>A bus on which ten bytes follow whatever is sent.\<close>

definition ten_byte_bus :: bus where
  "ten_byte_bus sent = replicate 10 0xFE"

text \<open>
  A call of the task is ripe when it cannot leave the engine waiting: the engine is not
  in the waiting state, or the bytes collected so far form a valid response, or the
  response timeout has expired at the clock reading of the call. \<open>ripe_ticks\<close> counts
  the ripe calls of the task in a sequence of operations.
\<close>

fun ripe :: "rdm_op \<Rightarrow> rdm \<Rightarrow> bool" where
  "ripe (Tick env) s =
     (s_state s \<noteq> SM_WAITING_RESPONSE \<or> response_valid_now s \<or> timed_out env s)"
| "ripe _ s = False"

fun ripe_ticks :: "rdm_op list \<Rightarrow> rdm \<Rightarrow> nat" where
  "ripe_ticks [] s = 0"
| "ripe_ticks (op # ops) s = (if ripe op s then 1 else 0) + ripe_ticks ops (step op s)"

text \<open>
  The number of ripe calls of the task after which a transaction in flight has come to
  its end at the latest.
\<close>

definition txn_rank :: "rdm \<Rightarrow> nat" where
  "txn_rank s =
     (if s_state s = SM_SENDING then 2 * (1 + unat RDM_RETRY_COUNT - unat (s_retry s))
      else if s_state s = SM_WAITING_RESPONSE
           then 2 * (1 + unat RDM_RETRY_COUNT - unat (s_retry s)) - 1
      else 0)"

text \<open>
  A scenario of invalid responses: the first attempt is answered by the request bytes
  with the last checksum byte off by one, the second by three bytes with a wrong start
  code, the third by nothing; the task is called at 0, 100, 100, 200, 200 and 300 ms.
  And the echo scenario with the task called four more times after the transaction.
\<close>

definition scenario_invalid :: "rdm_op list" where
  "scenario_invalid =
     [Irq (take 25 scenario_request @ [0x66]), Tick (at_ms 100), Tick (at_ms 100),
      Irq [0x00, 0x01, 0x18], Tick (at_ms 200), Tick (at_ms 200), Tick (at_ms 300)]"

definition scenario_echo_on :: "rdm_op list" where
  "scenario_echo_on =
     scenario_echo @ [Tick (at_ms 6), Tick (at_ms 7), Tick (at_ms 8), Tick (at_ms 9)]"

section \<open>Proofs\<close>

subsection \<open>Words\<close>

lemma unat_u8_lt: "unat (b :: u8) < 256"
  using unsigned_less [of b, where 'a = nat] by simp

lemma unat_ucast_8_16: "unat (ucast (b :: u8) :: u16) = unat b"
proof -
  have "unat b < 2 ^ 16" using unat_u8_lt [of b] by simp
  then show ?thesis by (simp add: unsigned_ucast_eq take_bit_nat_eq_self)
qed

lemma be16_plus:
  "(push_bit 8 (ucast (a :: u8)) OR (ucast (b :: u8)) :: u16) = push_bit 8 (ucast a) + ucast b"
proof (rule disjunctive_add_eq_or [symmetric])
  show "push_bit 8 (ucast a) AND (ucast b :: u16) = 0"
    by (rule bit_word_eqI) (auto simp: bit_simps dest: bit_imp_le_length)
qed

lemma be16:
  "unat (push_bit 8 (ucast (a :: u8)) OR (ucast (b :: u8)) :: u16) = unat a * 256 + unat b"
proof -
  have a: "unat a < 256" by (rule unat_u8_lt)
  have b: "unat b < 256" by (rule unat_u8_lt)
  have "unat (push_bit 8 (ucast a) :: u16) = unat a * 256"
    using a by (simp add: push_bit_eq_mult unat_word_ariths unat_ucast_8_16)
  then show ?thesis using a b
    by (simp add: be16_plus unat_word_ariths unat_ucast_8_16)
qed

lemma unat_msg_len_plus2: "unat (ucast (m :: u8) + 2 :: u16) = unat m + 2"
  using unat_u8_lt [of m] by (simp add: unat_word_ariths unat_ucast_8_16)

subsection \<open>Checksum\<close>

lemma checksum_fold:
  "unat (foldl (\<lambda>sum i. sum + ucast ((dat :: u8 list) ! i)) (0 :: u16) [0..<n])
     = (\<Sum>i<n. unat (dat ! i)) mod 65536"
proof (induction n)
  case 0
  show ?case by simp
next
  case (Suc n)
  have "unat (foldl (\<lambda>sum i. sum + ucast (dat ! i)) (0 :: u16) [0..<Suc n])
      = (unat (foldl (\<lambda>sum i. sum + ucast (dat ! i)) (0 :: u16) [0..<n]) + unat (dat ! n))
          mod 65536"
    by (simp add: unat_word_ariths unat_ucast_8_16)
  also have "\<dots> = ((\<Sum>i<n. unat (dat ! i)) mod 65536 + unat (dat ! n)) mod 65536"
    by (simp only: Suc.IH)
  also have "\<dots> = (\<Sum>i<Suc n. unat (dat ! i)) mod 65536"
    by (simp add: mod_add_left_eq)
  finally show ?case .
qed

lemma sum_take_nth:
  "n \<le> length xs \<Longrightarrow> sum_list (map f (take n xs)) = (\<Sum>i<n. (f (xs ! i) :: nat))"
proof (induction n)
  case 0
  show ?case by simp
next
  case (Suc n)
  then have "take (Suc n) xs = take n xs @ [xs ! n]"
    by (simp add: take_Suc_conv_app_nth)
  with Suc show ?case by simp
qed

lemma rdm_checksum_sum:
  "unat len \<le> length dat \<Longrightarrow>
   unat (rdm_checksum dat len) = sum_list (map unat (take (unat len) dat)) mod 65536"
  by (simp add: rdm_checksum_def checksum_fold sum_take_nth)

subsection \<open>Validation\<close>

lemma spec_valid_len3: "length r = 3 \<Longrightarrow> \<not> spec_response_valid r"
proof
  assume l: "length r = 3" and v: "spec_response_valid r"
  from v have h: "r ! 0 = 0xCC" "r ! 1 = 0x01" 
    and m: "unat (r ! 2) + 2 \<le> length r"
    and c: "unat (r ! unat (r ! 2)) * 256 + unat (r ! (unat (r ! 2) + 1))
              = sum_list (map unat (take (unat (r ! 2)) r)) mod 65536"
    by (simp_all add: spec_response_valid_def Let_def)
  from l obtain a b c' where r: "r = [a, b, c']"
    by (cases r; simp; cases "tl r"; simp; cases "tl (tl r)"; simp)
  from m l have "unat (r ! 2) = 0 \<or> unat (r ! 2) = 1" by arith
  then show False
  proof
    assume "unat (r ! 2) = 0"
    with c h r show False by simp
  next
    assume "unat (r ! 2) = 1"
    with c h r show False by simp
  qed
qed

text \<open>
  Claim C2. For a collected response of \<open>len\<close> bytes held in \<open>buf\<close>,
  \<^verbatim>\<open>rdm_validate_response\<close> answers true exactly when the response is valid in the
  words of the specification: the two start-code bytes \<open>0xCC\<close>, \<open>0x01\<close>, a declared
  message length whose message and two checksum bytes lie within the collected bytes,
  and a big-endian checksum at indices \<open>msg_len\<close>, \<open>msg_len + 1\<close> equal to the sum of
  the first \<open>msg_len\<close> bytes modulo 65536.
\<close>

theorem rdm_validate_response_iff:
  assumes "unat len \<le> length buf"
  shows "rdm_validate_response buf len \<longleftrightarrow> spec_response_valid (take (unat len) buf)"
proof (cases "len < 4")
  case True
  then have l: "unat len < 4" by (simp add: word_less_nat_alt)
  have "\<not> spec_response_valid (take (unat len) buf)"
  proof (cases "unat len = 3")
    case True
    with assms show ?thesis by (intro spec_valid_len3) simp
  next
    case False
    with l have "unat len < 3" by simp
    then show ?thesis by (simp add: spec_response_valid_def)
  qed
  with True show ?thesis by (simp add: rdm_validate_response_def)
next
  case False
  then have l: "4 \<le> unat len" by (simp add: word_less_nat_alt not_less word_le_nat_alt)
  let ?r = "take (unat len) buf"
  let ?m = "unat (buf ! 2)"
  have lr: "length ?r = unat len" using assms by simp
  have n0: "?r ! 0 = buf ! 0" "?r ! 1 = buf ! 1" "?r ! 2 = buf ! 2" using l by simp_all
  show ?thesis
  proof (cases "?m + 2 \<le> unat len")
    case fits: True
    then have nm: "?r ! ?m = buf ! ?m" "?r ! (?m + 1) = buf ! (?m + 1)" by simp_all
    have tk: "take ?m ?r = take ?m buf" using fits by (simp add: min_def)
    have ml: "unat (ucast (buf ! 2) :: u16) \<le> length buf"
      using fits assms by (simp add: unat_ucast_8_16)
    have ck: "unat (rdm_checksum buf (ucast (buf ! 2))) = sum_list (map unat (take ?m buf)) mod 65536"
      using rdm_checksum_sum [OF ml] by (simp add: unat_ucast_8_16)
    have nl: "\<not> len < ucast (buf ! 2) + 2"
      using fits by (simp add: word_less_nat_alt unat_msg_len_plus2)
    have code: "rdm_validate_response buf len \<longleftrightarrow>
        buf ! 0 = 0xCC \<and> buf ! 1 = 0x01 \<and>
        rdm_checksum buf (ucast (buf ! 2))
          = push_bit 8 (ucast (buf ! ?m)) OR ucast (buf ! (?m + 1))"
      using False nl
      by (auto simp: rdm_validate_response_def Let_def RDM_SC_RDM_def RDM_SC_SUB_MESSAGE_def)
    have spec: "spec_response_valid ?r \<longleftrightarrow>
        buf ! 0 = 0xCC \<and> buf ! 1 = 0x01 \<and>
        unat (buf ! ?m) * 256 + unat (buf ! (?m + 1))
          = sum_list (map unat (take ?m buf)) mod 65536"
      using fits l assms
      by (simp add: spec_response_valid_def Let_def lr n0 nm tk del: One_nat_def)
    have eq: "rdm_checksum buf (ucast (buf ! 2))
          = push_bit 8 (ucast (buf ! ?m)) OR ucast (buf ! (?m + 1)) \<longleftrightarrow>
        unat (buf ! ?m) * 256 + unat (buf ! (?m + 1))
          = sum_list (map unat (take ?m buf)) mod 65536"
      unfolding word_unat_eq_iff ck be16 by (rule eq_commute)
    show ?thesis unfolding code spec eq ..
  next
    case nofit: False
    then have "len < ucast (buf ! 2) + 2"
      by (simp add: word_less_nat_alt unat_msg_len_plus2)
    with nofit show ?thesis
      by (simp add: rdm_validate_response_def spec_response_valid_def Let_def lr n0)
  qed
qed


theorem rdm_validate_response_iff_witness:
  "unat (5 :: u16) \<le> length [0xCC, 0x01, 0x03, 0x00, 0xD0 :: u8]
   \<and> rdm_validate_response [0xCC, 0x01, 0x03, 0x00, 0xD0] 5
   \<and> spec_response_valid (take (unat (5 :: u16)) [0xCC, 0x01, 0x03, 0x00, 0xD0])"
proof -
  have h: "unat (5 :: u16) \<le> length [0xCC, 0x01, 0x03, 0x00, 0xD0 :: u8]" by simp
  have v: "rdm_validate_response [0xCC, 0x01, 0x03, 0x00, 0xD0] 5" by code_simp
  from rdm_validate_response_iff [OF h] v
  have "spec_response_valid (take (unat (5 :: u16)) [0xCC, 0x01, 0x03, 0x00, 0xD0])" by blast
  with h v show ?thesis by blast
qed

subsection \<open>The receive ring\<close>

lemma cnt_cases:
  assumes "h < 512" "t < 512"
  shows "(t + 512 - h) mod 512 = (if h \<le> t then t - h else t + 512 - (h::nat))"
proof (cases "h \<le> t")
  case True
  then have "t + 512 - h = (t - h) + 512" by arith
  then have "(t + 512 - h) mod 512 = ((t - h) + 512) mod 512" by (rule arg_cong)
  also have "\<dots> = (t - h) mod 512" by (rule mod_add_self2)
  also have "\<dots> = t - h" using assms by (intro mod_less) arith
  finally show ?thesis using True by simp
next
  case False
  with assms have "t + 512 - h < 512" by arith
  then show ?thesis using False by simp
qed

lemma succ_cases: "t < 512 \<Longrightarrow> (t + 1) mod 512 = (if t = 511 then 0 else t + (1::nat))"
  by (cases "t = 511") simp_all

lemma idx_cases:
  assumes "h < 512" "i < 512"
  shows "(h + i) mod 512 = (if h + i < 512 then h + i else h + i - (512::nat))"
proof (cases "h + i < 512")
  case True then show ?thesis by simp
next
  case False
  then have "h + i = (h + i - 512) + 512" by arith
  then have "(h + i) mod 512 = ((h + i - 512) + 512) mod 512" by (rule arg_cong)
  also have "\<dots> = (h + i - 512) mod 512" by (rule mod_add_self2)
  also have "\<dots> = h + i - 512" using assms by (intro mod_less) arith
  finally show ?thesis using False by simp
qed

lemma full_iff: "h < 512 \<Longrightarrow> t < 512 \<Longrightarrow> ((t + 1) mod 512 = h) \<longleftrightarrow> (t + 512 - h) mod 512 = (511::nat)"
  unfolding cnt_cases succ_cases by (cases "t = 511"; cases "h \<le> t"; simp; arith)

lemma empty_iff: "h < 512 \<Longrightarrow> t < 512 \<Longrightarrow> h = t \<longleftrightarrow> (t + 512 - h) mod 512 = (0::nat)"
  unfolding cnt_cases by (cases "h \<le> t"; simp; arith)

lemma cnt_lt: "((t::nat) + 512 - h) mod 512 < 512"
  by simp



lemma push_cnt:
  assumes "h < 512" "t < 512" "(t + 512 - h) mod 512 \<noteq> (511::nat)"
  shows "((t + 1) mod 512 + 512 - h) mod 512 = (t + 512 - h) mod 512 + 1"
proof (cases "t = 511")
  case True
  have c: "(t + 512 - h) mod 512 = 511 - h"
    using cnt_cases [OF assms(1,2)] assms(1) True by simp
  with assms(3) have h0: "h \<noteq> 0" by auto
  have "(t + 1) mod 512 = 0" using True by simp
  then have "((t + 1) mod 512 + 512 - h) mod 512 = (512 - h) mod 512" by simp
  also have "\<dots> = 512 - h" using h0 by (intro mod_less) arith
  finally show ?thesis using c assms(1) by arith
next
  case False
  with assms(2) have lt: "t + 1 < 512" by arith
  then have s: "(t + 1) mod 512 = t + 1" by (rule mod_less)
  have a: "(t + 1 + 512 - h) mod 512 = (if h \<le> t + 1 then t + 1 - h else t + 1 + 512 - h)"
    by (rule cnt_cases [OF assms(1) lt])
  have b: "(t + 512 - h) mod 512 = (if h \<le> t then t - h else t + 512 - h)"
    by (rule cnt_cases [OF assms(1,2)])
  have "h \<noteq> t + 1"
  proof
    assume "h = t + 1"
    with b have "(t + 512 - h) mod 512 = 511" by simp
    with assms(3) show False by simp
  qed
  then show ?thesis using assms(1) unfolding s a b by (cases "h \<le> t") auto
qed

lemma push_idx_old:
  assumes "h < 512" "t < 512" "i < (t + 512 - h) mod 512"
  shows "(h + i) mod 512 \<noteq> (t::nat)"
proof -
  have i: "i < 512" using assms(3) cnt_lt [of t h] by arith
  show ?thesis
    using assms cnt_cases [OF assms(1,2)] idx_cases [OF assms(1) i]
    by (cases "h + i < 512"; cases "h \<le> t"; simp split: if_splits; arith?)
qed


lemma push_idx_new:
  assumes "h < 512" "t < 512"
  shows "(h + (t + 512 - h) mod 512) mod 512 = (t::nat)"
proof -
  have i: "(t + 512 - h) mod 512 < 512" by simp
  show ?thesis
    using assms cnt_cases [OF assms(1,2)] idx_cases [OF assms(1) i]
    by (cases "h \<le> t"; simp split: if_splits; arith?)
qed


lemma pop_cnt:
  assumes "h < 512" "t < 512" "(t + 512 - h) mod 512 \<noteq> (0::nat)"
  shows "(t + 512 - (h + 1) mod 512) mod 512 = (t + 512 - h) mod 512 - 1"
proof -
  have h': "(h + 1) mod 512 < (512::nat)" by simp
  show ?thesis
    using assms cnt_cases [OF assms(1,2)] cnt_cases [OF h' assms(2)] succ_cases [OF assms(1)]
    by (cases "h = 511"; cases "h \<le> t"; simp split: if_splits; arith?)
qed


lemma pop_idx: "((h + 1) mod 512 + i) mod 512 = (h + (i + 1)) mod (512::nat)"
  by (simp add: mod_simps)




lemma unat_idx: "n < 512 \<Longrightarrow> unat (of_nat n :: u16) = n"
  by (simp add: unat_of_nat)

lemma idx_eq: "n < 512 \<Longrightarrow> (of_nat n = (h :: u16)) \<longleftrightarrow> n = unat h"
  by (auto simp: unat_idx)

lemma rx_wfD:
  "rx_wf s \<Longrightarrow> unat (s_rx_head s) < 512"
  "rx_wf s \<Longrightarrow> unat (s_rx_tail s) < 512"
  "rx_wf s \<Longrightarrow> length (s_rx_buf s) = 512"
  by (simp_all add: rx_wf_def RDM_RX_BUF_SIZE_def)

lemma rx_count_eq: "rx_count s = (unat (s_rx_tail s) + 512 - unat (s_rx_head s)) mod 512"
  by (simp add: rx_count_def RDM_RX_BUF_SIZE_def)

lemma rx_full_count:
  assumes "rx_wf s" shows "rx_full s \<longleftrightarrow> rx_count s = 511"
proof -
  let ?h = "unat (s_rx_head s)" and ?t = "unat (s_rx_tail s)"
  have "(of_nat ((?t + 1) mod 512) = s_rx_head s) \<longleftrightarrow> (?t + 1) mod 512 = ?h"
    by (rule idx_eq) simp
  also have "\<dots> \<longleftrightarrow> (?t + 512 - ?h) mod 512 = 511"
    by (rule full_iff) (rule rx_wfD [OF assms])+
  finally show ?thesis
    by (simp only: rx_full_def rx_count_eq RDM_RX_BUF_SIZE_def)
qed

lemma rx_empty_count: "rx_wf s \<Longrightarrow> s_rx_head s = s_rx_tail s \<longleftrightarrow> rx_count s = 0"
  unfolding rx_count_eq word_unat_eq_iff by (rule empty_iff) (rule rx_wfD, assumption)+

lemma rx_push_full: "rx_full s \<Longrightarrow> rx_push b s = s"
  by (simp add: rx_full_def rx_push_def)

lemma rx_push_fields:
  "\<not> rx_full s \<Longrightarrow> s_rx_buf (rx_push b s) = (s_rx_buf s)[unat (s_rx_tail s) := b]"
  "s_rx_head (rx_push b s) = s_rx_head s"
  "\<not> rx_full s \<Longrightarrow> unat (s_rx_tail (rx_push b s)) = (unat (s_rx_tail s) + 1) mod 512"
  by (simp_all add: rx_push_def rx_full_def Let_def RDM_RX_BUF_SIZE_def unat_idx
        del: of_nat_Suc of_nat_add)

lemma rx_push_wf: "rx_wf s \<Longrightarrow> rx_wf (rx_push b s)"
proof (cases "rx_full s")
  case True
  assume "rx_wf s"
  with True show ?thesis by (simp add: rx_push_full)
next
  case False
  assume "rx_wf s"
  with False show ?thesis
    unfolding rx_wf_def by (simp add: rx_push_fields RDM_RX_BUF_SIZE_def)
qed

lemma rx_push_count:
  assumes "rx_wf s" "\<not> rx_full s" shows "rx_count (rx_push b s) = rx_count s + 1"
proof -
  from assms have "rx_count s \<noteq> 511" by (simp add: rx_full_count)
  then show ?thesis
    unfolding rx_count_eq rx_push_fields(2) rx_push_fields(3) [OF assms(2)]
    by (intro push_cnt rx_wfD assms(1))
qed

lemma rx_push_contents:
  assumes "rx_wf s" "\<not> rx_full s" shows "rx_contents (rx_push b s) = rx_contents s @ [b]"
proof (rule nth_equalityI)
  show "length (rx_contents (rx_push b s)) = length (rx_contents s @ [b])"
    using rx_push_count [OF assms] by (simp add: rx_contents_def)
next
  fix i assume "i < length (rx_contents (rx_push b s))"
  then have i: "i < rx_count s + 1" using rx_push_count [OF assms] by (simp add: rx_contents_def)
  let ?h = "unat (s_rx_head s)" and ?t = "unat (s_rx_tail s)"
  note b = rx_wfD [OF assms(1)]
  note st = rx_push_fields(1) [OF assms(2)] rx_push_fields(2)
  show "rx_contents (rx_push b s) ! i = (rx_contents s @ [b]) ! i"
  proof (cases "i < rx_count s")
    case True
    then have "(?h + i) mod 512 \<noteq> ?t"
      unfolding rx_count_eq by (intro push_idx_old b)
    with True i show ?thesis
      using rx_push_count [OF assms]
      by (simp add: rx_contents_def st nth_append RDM_RX_BUF_SIZE_def)
  next
    case False
    with i have e: "i = rx_count s" by simp
    have "(?h + rx_count s) mod 512 = ?t"
      unfolding rx_count_eq by (intro push_idx_new b)
    with e b show ?thesis
      using rx_push_count [OF assms]
      by (simp add: rx_contents_def st nth_append RDM_RX_BUF_SIZE_def)
  qed
qed

lemma rx_pop_empty: "s_rx_head s = s_rx_tail s \<Longrightarrow> rx_pop s = (- 1, s)"
  by (simp add: rx_pop_def)

lemma rx_pop_fields:
  "s_rx_buf (snd (rx_pop s)) = s_rx_buf s"
  "s_rx_tail (snd (rx_pop s)) = s_rx_tail s"
  "s_rx_head s \<noteq> s_rx_tail s \<Longrightarrow>
     unat (s_rx_head (snd (rx_pop s))) = (unat (s_rx_head s) + 1) mod 512"
  "s_rx_head s \<noteq> s_rx_tail s \<Longrightarrow> fst (rx_pop s) = uint (s_rx_buf s ! unat (s_rx_head s))"
  by (simp_all add: rx_pop_def Let_def RDM_RX_BUF_SIZE_def unat_idx
        del: of_nat_Suc of_nat_add)

lemma rx_pop_wf: "rx_wf s \<Longrightarrow> rx_wf (snd (rx_pop s))"
proof (cases "s_rx_head s = s_rx_tail s")
  case True
  assume "rx_wf s"
  with True show ?thesis by (simp add: rx_pop_empty)
next
  case False
  assume "rx_wf s"
  then show ?thesis
    unfolding rx_wf_def by (simp add: rx_pop_fields(1,2) rx_pop_fields(3) [OF False] RDM_RX_BUF_SIZE_def)
qed

lemma rx_pop_nonempty:
  assumes "rx_wf s" "s_rx_head s \<noteq> s_rx_tail s"
  shows "fst (rx_pop s) = uint (hd (rx_contents s))"
    and "rx_contents (snd (rx_pop s)) = tl (rx_contents s)"
proof -
  let ?h = "unat (s_rx_head s)" and ?t = "unat (s_rx_tail s)"
  from assms have c: "rx_count s \<noteq> 0" by (simp add: rx_empty_count)
  note b = rx_wfD [OF assms(1)]
  from c have "hd (rx_contents s) = s_rx_buf s ! ?h"
    using b by (simp add: rx_contents_def hd_map hd_upt RDM_RX_BUF_SIZE_def)
  then show "fst (rx_pop s) = uint (hd (rx_contents s))"
    by (simp add: rx_pop_fields(4) [OF assms(2)])
  note st = rx_pop_fields(1,2) rx_pop_fields(3) [OF assms(2)]
  have cnt: "rx_count (snd (rx_pop s)) = rx_count s - 1"
    using c unfolding rx_count_eq st by (intro pop_cnt b)
  show "rx_contents (snd (rx_pop s)) = tl (rx_contents s)"
  proof (rule nth_equalityI)
    show "length (rx_contents (snd (rx_pop s))) = length (tl (rx_contents s))"
      by (simp add: rx_contents_def cnt)
  next
    fix i assume "i < length (rx_contents (snd (rx_pop s)))"
    then have i: "i < rx_count s - 1" by (simp add: rx_contents_def cnt)
    have "((?h + 1) mod 512 + i) mod 512 = (?h + (i + 1)) mod 512" by (rule pop_idx)
    moreover from i have "Suc i < rx_count s" by arith
    ultimately show "rx_contents (snd (rx_pop s)) ! i = tl (rx_contents s) ! i"
      using i by (simp add: rx_contents_def cnt st nth_tl RDM_RX_BUF_SIZE_def)
  qed
qed

lemma rx_run_refines:
  "rx_wf s \<Longrightarrow>
   fst (rx_run ops s) = fst (fifo_run 511 ops (rx_contents s)) \<and>
   rx_contents (snd (rx_run ops s)) = snd (fifo_run 511 ops (rx_contents s))"
proof (induction ops arbitrary: s)
  case Nil
  show ?case by simp
next
  case (Cons op ops)
  show ?case
  proof (cases op)
    case (RxPush b)
    show ?thesis
    proof (cases "rx_full s")
      case True
      with Cons.prems have "\<not> length (rx_contents s) < 511"
        by (simp add: rx_full_count rx_contents_def)
      with True Cons RxPush show ?thesis by (simp add: rx_push_full)
    next
      case False
      with Cons.prems have "rx_count s < 512" "rx_count s \<noteq> 511"
        by (simp_all add: rx_full_count rx_count_def RDM_RX_BUF_SIZE_def)
      then have "length (rx_contents s) < 511" by (simp add: rx_contents_def)
      with False Cons.prems RxPush Cons.IH [of "rx_push b s"] show ?thesis
        by (simp add: rx_push_contents rx_push_wf)
    qed
  next
    case RxPop
    show ?thesis
    proof (cases "s_rx_head s = s_rx_tail s")
      case True
      with Cons.prems have "rx_contents s = []" by (simp add: rx_empty_count rx_contents_def)
      with True RxPop Cons.prems Cons.IH [of s] show ?thesis
        by (simp add: rx_pop_empty split_beta)
    next
      case False
      with Cons.prems have "rx_contents s \<noteq> []" by (simp add: rx_empty_count rx_contents_def)
      then obtain x q1 where q: "rx_contents s = x # q1" by (cases "rx_contents s") auto
      from rx_pop_nonempty [OF Cons.prems False] q
      have "fst (rx_pop s) = uint x" "rx_contents (snd (rx_pop s)) = q1" by simp_all
      with q RxPop Cons.IH [of "snd (rx_pop s)"] rx_pop_wf [OF Cons.prems] show ?thesis
        by (simp add: split_beta)
    qed
  qed
qed

lemma popped_Cons_neg [simp]: "popped (- 1 # rs) = popped rs"
  by (simp add: popped_def)

lemma popped_Cons_byte [simp]: "popped (uint (x :: u8) # rs) = x # popped rs"
  by (simp add: popped_def)

lemma popped_Nil [simp]: "popped [] = []"
  by (simp add: popped_def)

lemma fifo_run_subseq:
  "subseq (popped (fst (fifo_run cap ops q)) @ snd (fifo_run cap ops q)) (q @ pushed ops)"
proof (induction ops arbitrary: q)
  case Nil
  show ?case by simp
next
  case (Cons op ops)
  show ?case
  proof (cases op)
    case (RxPush b)
    show ?thesis
    proof (cases "length q < cap")
      case True
      with RxPush Cons.IH [of "q @ [b]"] show ?thesis by simp
    next
      case False
      have "subseq (q @ pushed ops) (q @ b # pushed ops)"
        by (simp add: subseq_append' subseq_Cons')
      with False RxPush Cons.IH [of q] show ?thesis
        by (auto intro: subseq_order.trans)
    qed
  next
    case RxPop
    show ?thesis
    proof (cases q)
      case Nil
      with RxPop Cons.IH [of "[]"] show ?thesis by (simp add: split_beta)
    next
      case (Cons x q1)
      with RxPop Cons.IH [of q1] show ?thesis by (simp add: split_beta)
    qed
  qed
qed


text \<open>
  Claim C8. For the receive ring (512 slots) in any state with its indices in range and
  any sequence of pushes and pops: a push made while the ring is full changes nothing,
  so it drops the new byte and leaves every unread byte in place; the pops return what
  a first-in first-out queue that refuses a push when it holds 511 bytes returns, and
  the queue's content stays that of the ring; hence the bytes returned are, in order, a
  subsequence of the bytes held at the start followed by the bytes pushed.
\<close>

theorem rx_ring_lossy_fifo:
  assumes "rx_wf s"
  shows "(rx_full s \<longrightarrow> rx_push b s = s)
       \<and> fst (rx_run ops s) = fst (fifo_run 511 ops (rx_contents s))
       \<and> rx_contents (snd (rx_run ops s)) = snd (fifo_run 511 ops (rx_contents s))
       \<and> subseq (popped (fst (rx_run ops s))) (rx_contents s @ pushed ops)"
proof -
  note r = rx_run_refines [OF assms, of ops]
  let ?out = "popped (fst (fifo_run 511 ops (rx_contents s)))"
  let ?fin = "snd (fifo_run 511 ops (rx_contents s))"
  have "subseq ?out (?out @ ?fin)" by (rule subseq_rev_drop_many) simp
  also have "subseq (?out @ ?fin) (rx_contents s @ pushed ops)" by (rule fifo_run_subseq)
  finally have "subseq (popped (fst (rx_run ops s))) (rx_contents s @ pushed ops)"
    using r by simp
  with r show ?thesis by (simp add: rx_push_full)
qed

theorem rx_ring_lossy_fifo_witness:
  "rx_wf (rdm_boot\<lparr>s_rx_head := 1\<rparr>) \<and> rx_full (rdm_boot\<lparr>s_rx_head := 1\<rparr>)
   \<and> rx_push 9 (rdm_boot\<lparr>s_rx_head := 1\<rparr>) = rdm_boot\<lparr>s_rx_head := 1\<rparr>
   \<and> subseq (popped (fst (rx_run [RxPush 9, RxPop] (rdm_boot\<lparr>s_rx_head := 1\<rparr>))))
        (rx_contents (rdm_boot\<lparr>s_rx_head := 1\<rparr>) @ pushed [RxPush 9, RxPop])"
proof -
  have w: "rx_wf (rdm_boot\<lparr>s_rx_head := 1\<rparr>)"
    by (simp add: rx_wf_def rdm_boot_def RDM_RX_BUF_SIZE_def)
  have f: "rx_full (rdm_boot\<lparr>s_rx_head := 1\<rparr>)"
    by (simp add: rx_full_def rdm_boot_def RDM_RX_BUF_SIZE_def)
  from rx_ring_lossy_fifo [OF w, of 9 "[RxPush 9, RxPop]"] w f show ?thesis by blast
qed

subsection \<open>Frames and the cases of the task\<close>

declare collect_response.simps [simp del] disc_loop.simps [simp del]
  disc_decode_uid.simps [simp del]

lemma rx_flush_eq: "rx_flush s = s\<lparr>s_rx_head := 0, s_rx_tail := 0\<rparr>"
  by (simp add: rx_flush_def)

lemma rdm_bus_send_eq:
  "rdm_bus_send dat len s =
     s\<lparr>g_rdm_bus_busy := True, s_rx_head := 0, s_rx_tail := 0,
       trace := trace s @ [BusSend (take (unat len) dat)]\<rparr>"
  by (simp add: rdm_bus_send_def rx_flush_def)

lemma rx_pop_frame: "snd (rx_pop s) = s\<lparr>s_rx_head := s_rx_head (snd (rx_pop s))\<rparr>"
  by (simp add: rx_pop_def Let_def)

lemma collect_response_frame:
  "collect_response s =
     s\<lparr>s_rx_head := s_rx_head (collect_response s),
       s_resp_buf := s_resp_buf (collect_response s),
       s_resp_len := s_resp_len (collect_response s)\<rparr>"
proof (induction s rule: collect_response.induct)
  case (1 s)
  show ?case
  proof (cases "rx_available s > 0 \<and> unat (s_resp_len s) < RDM_MAX_PACKET_SIZE")
    case False
    then have "collect_response s = s" by (subst collect_response.simps) auto
    then show ?thesis by simp
  next
    case True
    obtain b s1 where p: "rx_pop s = (b, s1)" by (cases "rx_pop s")
    let ?n = "if b \<ge> 0
        then s1\<lparr> s_resp_buf := (s_resp_buf s1)[unat (s_resp_len s1) := word_of_int b],
                 s_resp_len := s_resp_len s1 + 1 \<rparr>
        else s1"
    have e: "collect_response s = collect_response ?n"
      using True p by (subst collect_response.simps) simp
    obtain h1 where s1: "s1 = s\<lparr>s_rx_head := h1\<rparr>"
      using rx_pop_frame [of s] p by (metis snd_conv)
    have n: "?n = s\<lparr>s_rx_head := s_rx_head ?n, s_resp_buf := s_resp_buf ?n, s_resp_len := s_resp_len ?n\<rparr>"
      unfolding s1 by simp
    have ih: "collect_response ?n = ?n\<lparr>s_rx_head := s_rx_head (collect_response ?n),
       s_resp_buf := s_resp_buf (collect_response ?n),
       s_resp_len := s_resp_len (collect_response ?n)\<rparr>"
      using "1.IH" [OF True p [symmetric] refl] .
    show ?thesis unfolding e by (subst ih, subst n) simp
  qed
qed

lemma uart1_irq_handler_frame:
  "uart1_irq_handler fifo s =
     s\<lparr>s_rx_buf := s_rx_buf (uart1_irq_handler fifo s),
       s_rx_tail := s_rx_tail (uart1_irq_handler fifo s)\<rparr>"
proof (induction fifo arbitrary: s)
  case Nil
  show ?case by (simp add: uart1_irq_handler_def)
next
  case (Cons b fifo)
  have p: "rx_push b s = s\<lparr>s_rx_buf := s_rx_buf (rx_push b s), s_rx_tail := s_rx_tail (rx_push b s)\<rparr>"
    by (simp add: rx_push_def Let_def)
  have u: "uart1_irq_handler (b # fifo) s = uart1_irq_handler fifo (rx_push b s)"
    by (simp add: uart1_irq_handler_def)
  show ?case unfolding u by (subst Cons.IH, subst p) simp
qed

text \<open>The cases of one call of the task.\<close>

lemma word8_gt0: "(0 < (c :: u8)) = (c \<noteq> 0)"
  by (auto simp: word_gt_0)

lemma rdm_task_start:
  assumes "s_state s = SM_IDLE" "s_req_count s \<noteq> 0"
  shows "rdm_task env s =
     s\<lparr>g_rdm_bus_busy := True, s_state := SM_WAITING_RESPONSE, s_retry := 0,
       s_timeout_start_ms := now_later env, s_active_idx := s_req_head s, s_resp_len := 0,
       s_rx_head := 0, s_rx_tail := 0,
       trace := trace s @ [BusSend (take (unat (length_r (s_req_buf s ! unat (s_req_head s))))
                                     (data (s_req_buf s ! unat (s_req_head s))))]\<rparr>"
  using assms by (simp add: rdm_task_def rdm_bus_send_eq rx_flush_eq word8_gt0 Let_def)

lemma rdm_task_sending:
  assumes "s_state s = SM_SENDING"
  shows "rdm_task env s =
     s\<lparr>g_rdm_bus_busy := True, s_state := SM_WAITING_RESPONSE,
       s_timeout_start_ms := now_later env, s_resp_len := 0,
       s_rx_head := 0, s_rx_tail := 0,
       trace := trace s @ [BusSend (take (unat (length_r (s_req_buf s ! unat (s_active_idx s))))
                                     (data (s_req_buf s ! unat (s_active_idx s))))]\<rparr>"
  using assms by (simp add: rdm_task_def rdm_bus_send_eq rx_flush_eq Let_def)

lemma collect_fields [simp]:
  "s_state (collect_response s) = s_state s"
  "s_retry (collect_response s) = s_retry s"
  "s_req_buf (collect_response s) = s_req_buf s"
  "s_req_head (collect_response s) = s_req_head s"
  "s_req_tail (collect_response s) = s_req_tail s"
  "s_req_count (collect_response s) = s_req_count s"
  "s_active_idx (collect_response s) = s_active_idx s"
  "s_resp_cb (collect_response s) = s_resp_cb s"
  "s_timeout_start_ms (collect_response s) = s_timeout_start_ms s"
  "trace (collect_response s) = trace s"
  "s_tod (collect_response s) = s_tod s"
  "s_tod_count (collect_response s) = s_tod_count s"
  "s_tod_changed (collect_response s) = s_tod_changed s"
  "s_discovery_last_ms (collect_response s) = s_discovery_last_ms s"
  "s_discovery_active (collect_response s) = s_discovery_active s"
  by (subst collect_response_frame, simp)+

lemma collect_response_empty: "s_rx_head s = s_rx_tail s \<Longrightarrow> collect_response s = s"
  by (subst collect_response.simps) (simp add: rx_available_def RDM_RX_BUF_SIZE_def)

lemma rdm_task_waiting:
  assumes "s_state s = SM_WAITING_RESPONSE"
  shows "rdm_task env s =
     (let c = collect_response s; valid = response_valid_now s;
          req = s_req_buf s ! unat (s_active_idx s) in
      if valid \<or> now_later env - s_timeout_start_ms s \<ge> RDM_RESPONSE_TIMEOUT_MS then
        if \<not> valid \<and> s_retry s < RDM_RETRY_COUNT
        then c\<lparr>s_retry := s_retry s + 1, s_state := SM_SENDING\<rparr>
        else c\<lparr>g_rdm_bus_busy := False,
               s_req_buf := (s_req_buf s)[unat (s_active_idx s) := req\<lparr>in_use := False\<rparr>],
               s_req_head := of_nat ((unat (s_req_head s) + 1) mod RDM_REQUEST_BUFFER_SIZE),
               s_req_count := s_req_count s - 1,
               s_state := SM_IDLE,
               trace := trace s @
                 (if s_resp_cb s then
                    [if valid
                     then RespCb (Some (take (unat (s_resp_len c)) (s_resp_buf c)))
                            (s_resp_len c) (src_ip req) (src_port req)
                     else RespCb None 0 (src_ip req) (src_port req)]
                  else [])\<rparr>
      else c)"
  using assms by (simp add: rdm_task_def response_valid_now_def Let_def)

lemma build_lens [simp]:
  "snd (build_disc_unique_branch lo up) = 38" "snd (build_disc_mute uid) = 26"
  by (simp_all add: build_disc_unique_branch_def build_disc_mute_def Let_def)

lemma disc_loop_unfold:
  "disc_loop bus n0 a s =
     (if a < 64 then
        (let s1 = rdm_bus_send (fst (build_disc_unique_branch s_disc_lower s_disc_upper)) 38 s;
             resp = rdm_bus_receive RDM_MAX_PACKET_SIZE [] (bus (drop n0 (trace s1)))
         in if length resp < 7 then s1
            else disc_loop bus n0 (a + 1)
                   (disc_tod_add (disc_decode_uid resp (length resp) 0 (replicate 6 0))
                      (rdm_bus_send
                         (fst (build_disc_mute (disc_decode_uid resp (length resp) 0 (replicate 6 0))))
                         26 s1)))
      else s)"
  by (subst disc_loop.simps) (simp add: Let_def split_beta)

lemma unat_attempt_suc: "(a :: u8) < 64 \<Longrightarrow> unat (a + 1) = unat a + 1"
proof -
  assume "a < 64"
  then have "unat a < 64" by (simp add: word_less_nat_alt)
  then show ?thesis by (simp add: unat_word_ariths)
qed

lemma disc_erase_send: "disc_erase (rdm_bus_send d l s) = disc_erase s"
  by (simp add: disc_erase_def rdm_bus_send_eq)

lemma disc_erase_add: "disc_erase (disc_tod_add u s) = disc_erase s"
  by (simp add: disc_erase_def disc_tod_add_def)

lemma disc_loop_erase: "disc_erase (disc_loop bus n0 a s) = disc_erase s"
proof (induction "64 - unat a" arbitrary: a s)
  case 0
  then have "\<not> a < 64" by (simp add: word_less_nat_alt)
  then have "disc_loop bus n0 a s = s" by (subst disc_loop_unfold) simp
  then show ?case by simp
next
  case (Suc k)
  then have a: "a < 64" by (simp add: word_less_nat_alt)
  let ?s1 = "rdm_bus_send (fst (build_disc_unique_branch s_disc_lower s_disc_upper)) 38 s"
  let ?resp = "rdm_bus_receive RDM_MAX_PACKET_SIZE [] (bus (drop n0 (trace ?s1)))"
  let ?uid = "disc_decode_uid ?resp (length ?resp) 0 (replicate 6 0)"
  let ?s3 = "disc_tod_add ?uid (rdm_bus_send (fst (build_disc_mute ?uid)) 26 ?s1)"
  show ?case
  proof (cases "length ?resp < 7")
    case True
    with a have "disc_loop bus n0 a s = ?s1"
      by (subst disc_loop_unfold) (simp only: Let_def if_True)
    then show ?thesis by (simp only: disc_erase_send)
  next
    case False
    with a have e: "disc_loop bus n0 a s = disc_loop bus n0 (a + 1) ?s3"
      by (subst disc_loop_unfold) (simp only: Let_def if_True if_False)
    from Suc(2) a have "k = 64 - unat (a + 1)" by (simp add: unat_attempt_suc)
    then have "disc_erase (disc_loop bus n0 (a + 1) ?s3) = disc_erase ?s3" by (rule Suc(1))
    then show ?thesis by (simp only: e disc_erase_add disc_erase_send)
  qed
qed

lemma run_discovery_cycle_erase: "disc_erase (run_discovery_cycle bus s) = disc_erase s"
  unfolding run_discovery_cycle_def disc_loop_erase by (simp add: disc_erase_def)

lemma run_discovery_cycle_keeps [simp]:
  "s_state (run_discovery_cycle bus s) = s_state s"
  "s_retry (run_discovery_cycle bus s) = s_retry s"
  "s_req_buf (run_discovery_cycle bus s) = s_req_buf s"
  "s_req_head (run_discovery_cycle bus s) = s_req_head s"
  "s_req_tail (run_discovery_cycle bus s) = s_req_tail s"
  "s_req_count (run_discovery_cycle bus s) = s_req_count s"
  "s_active_idx (run_discovery_cycle bus s) = s_active_idx s"
  "s_resp_cb (run_discovery_cycle bus s) = s_resp_cb s"
  "s_tod_prev (run_discovery_cycle bus s) = s_tod_prev s"
  "s_tod_prev_count (run_discovery_cycle bus s) = s_tod_prev_count s"
  "s_tod_count (run_discovery_cycle bus s) = s_tod_count s"
  "s_tod_changed (run_discovery_cycle bus s) = s_tod_changed s"
  "s_discovery_last_ms (run_discovery_cycle bus s) = s_discovery_last_ms s"
  "s_discovery_active (run_discovery_cycle bus s) = s_discovery_active s"
  "s_rx_buf (run_discovery_cycle bus s) = s_rx_buf s"
  "s_resp_buf (run_discovery_cycle bus s) = s_resp_buf s"
  "s_resp_len (run_discovery_cycle bus s) = s_resp_len s"
  "s_timeout_start_ms (run_discovery_cycle bus s) = s_timeout_start_ms s"
  using arg_cong [OF run_discovery_cycle_erase [of bus s], of s_state]
    arg_cong [OF run_discovery_cycle_erase [of bus s], of s_retry]
    arg_cong [OF run_discovery_cycle_erase [of bus s], of s_req_buf]
    arg_cong [OF run_discovery_cycle_erase [of bus s], of s_req_head]
    arg_cong [OF run_discovery_cycle_erase [of bus s], of s_req_tail]
    arg_cong [OF run_discovery_cycle_erase [of bus s], of s_req_count]
    arg_cong [OF run_discovery_cycle_erase [of bus s], of s_active_idx]
    arg_cong [OF run_discovery_cycle_erase [of bus s], of s_resp_cb]
    arg_cong [OF run_discovery_cycle_erase [of bus s], of s_tod_prev]
    arg_cong [OF run_discovery_cycle_erase [of bus s], of s_tod_prev_count]
    arg_cong [OF run_discovery_cycle_erase [of bus s], of s_tod_count]
    arg_cong [OF run_discovery_cycle_erase [of bus s], of s_tod_changed]
    arg_cong [OF run_discovery_cycle_erase [of bus s], of s_discovery_last_ms]
    arg_cong [OF run_discovery_cycle_erase [of bus s], of s_discovery_active]
    arg_cong [OF run_discovery_cycle_erase [of bus s], of s_rx_buf]
    arg_cong [OF run_discovery_cycle_erase [of bus s], of s_resp_buf]
    arg_cong [OF run_discovery_cycle_erase [of bus s], of s_resp_len]
    arg_cong [OF run_discovery_cycle_erase [of bus s], of s_timeout_start_ms]
  by (simp_all add: disc_erase_def)

lemma rdm_task_other:
  assumes "s_state s \<noteq> SM_IDLE" "s_state s \<noteq> SM_SENDING" "s_state s \<noteq> SM_WAITING_RESPONSE"
  shows "rdm_task env s = s"
  using assms by (simp add: rdm_task_def)

lemma rdm_task_idle_quiet:
  assumes "s_state s = SM_IDLE" "s_req_count s = 0" "\<not> runs_discovery env s"
  shows "rdm_task env s = s"
  using assms by (simp add: rdm_task_def runs_discovery_def)

lemma rdm_task_discovery:
  assumes "runs_discovery env s"
  shows "rdm_task env s =
     (let d = run_discovery_cycle (disc_bus env)
                (s\<lparr>s_discovery_active := True,
                   s_tod_prev := memcpy_at (s_tod_prev s) 0 (s_tod s) (unat (s_tod_count s)),
                   s_tod_prev_count := s_tod_count s\<rparr>)
      in d\<lparr>g_rdm_bus_busy := False,
            s_tod_count := s_disc_tod_count d,
            s_tod_changed := (s_tod_changed s \<or> s_disc_tod_count d \<noteq> s_tod_count s
               \<or> take (unat (s_disc_tod_count d)) (s_tod d)
                    \<noteq> take (unat (s_disc_tod_count d))
                         (memcpy_at (s_tod_prev s) 0 (s_tod s) (unat (s_tod_count s)))),
            s_discovery_last_ms := now_later env,
            s_discovery_active := False\<rparr>)"
proof -
  from assms have st: "s_state s = SM_IDLE" "s_req_count s = 0"
    by (simp_all add: runs_discovery_def)
  show ?thesis
  proof (cases "s_discovery_active s")
    case True
    then have e: "s\<lparr>s_discovery_active := True\<rparr> = s" by (cases s) simp
    show ?thesis
      using st True by (simp add: rdm_task_def Let_def e)
  next
    case False
    with assms have i: "now_ms env - s_discovery_last_ms s \<ge> RDM_DISCOVERY_INTERVAL_MS"
      by (simp add: runs_discovery_def)
    show ?thesis
      using st False i by (simp add: rdm_task_def Let_def)
  qed
qed

subsection \<open>The table of devices and its changed flag\<close>

lemma irq_fields [simp]:
  "s_state (uart1_irq_handler fifo s) = s_state s"
  "s_retry (uart1_irq_handler fifo s) = s_retry s"
  "s_req_buf (uart1_irq_handler fifo s) = s_req_buf s"
  "s_req_head (uart1_irq_handler fifo s) = s_req_head s"
  "s_req_tail (uart1_irq_handler fifo s) = s_req_tail s"
  "s_req_count (uart1_irq_handler fifo s) = s_req_count s"
  "s_active_idx (uart1_irq_handler fifo s) = s_active_idx s"
  "s_resp_cb (uart1_irq_handler fifo s) = s_resp_cb s"
  "s_timeout_start_ms (uart1_irq_handler fifo s) = s_timeout_start_ms s"
  "trace (uart1_irq_handler fifo s) = trace s"
  "s_tod (uart1_irq_handler fifo s) = s_tod s"
  "s_tod_count (uart1_irq_handler fifo s) = s_tod_count s"
  "s_tod_changed (uart1_irq_handler fifo s) = s_tod_changed s"
  "s_discovery_last_ms (uart1_irq_handler fifo s) = s_discovery_last_ms s"
  "s_discovery_active (uart1_irq_handler fifo s) = s_discovery_active s"
  "s_resp_buf (uart1_irq_handler fifo s) = s_resp_buf s"
  "s_resp_len (uart1_irq_handler fifo s) = s_resp_len s"
  "s_rx_head (uart1_irq_handler fifo s) = s_rx_head s"
  by (subst uart1_irq_handler_frame, simp)+

lemma rdm_task_tod_quiet:
  assumes "\<not> runs_discovery env s"
  shows "s_tod (rdm_task env s) = s_tod s \<and> s_tod_count (rdm_task env s) = s_tod_count s
       \<and> s_tod_changed (rdm_task env s) = s_tod_changed s"
proof (cases "s_state s")
  case SM_IDLE
  show ?thesis
  proof (cases "s_req_count s = 0")
    case True
    with SM_IDLE assms show ?thesis by (simp add: rdm_task_idle_quiet)
  next
    case False
    with SM_IDLE show ?thesis by (simp add: rdm_task_start)
  qed
next
  case SM_SENDING
  then show ?thesis by (simp add: rdm_task_sending)
next
  case SM_WAITING_RESPONSE
  then show ?thesis by (simp add: rdm_task_waiting Let_def)
qed (simp_all add: rdm_task_other)

lemma rdm_task_discovery_flag:
  assumes "runs_discovery env s"
  shows "s_tod_changed (rdm_task env s) \<longleftrightarrow> s_tod_changed s \<or> tod_differs (rdm_task env s)"
  using assms by (simp add: rdm_task_discovery Let_def tod_differs_def)

lemma step_tod_quiet:
  assumes "\<not> writes_tod op s"
  shows "s_tod (step op s) = s_tod s" "s_tod_count (step op s) = s_tod_count s"
    "s_tod_changed (step op s) \<longrightarrow> s_tod_changed s"
proof -
  have "s_tod (step op s) = s_tod s \<and> s_tod_count (step op s) = s_tod_count s
      \<and> (s_tod_changed (step op s) \<longrightarrow> s_tod_changed s)"
  proof (cases op)
    case (Tick env)
    with assms show ?thesis using rdm_task_tod_quiet [of env s] by simp
  next
    case (Enqueue dat len ip port)
    then show ?thesis by (simp add: rdm_enqueue_request_def Let_def)
  next
    case GetTod
    then show ?thesis by (simp add: rdm_get_tod_def)
  next
    case FlushTod
    with assms show ?thesis by simp
  next
    case TodChanged
    then show ?thesis by simp
  next
    case (Irq fifo)
    then show ?thesis by simp
  next
    case (SetCallback cb)
    then show ?thesis by (simp add: rdm_set_response_callback_def)
  qed
  then show "s_tod (step op s) = s_tod s" "s_tod_count (step op s) = s_tod_count s"
    "s_tod_changed (step op s) \<longrightarrow> s_tod_changed s" by simp_all
qed

lemma run_tod_quiet:
  "tod_quiet ops s \<Longrightarrow>
     s_tod (run ops s) = s_tod s \<and> s_tod_count (run ops s) = s_tod_count s
     \<and> (s_tod_changed (run ops s) \<longrightarrow> s_tod_changed s)"
proof (induction ops arbitrary: s)
  case Nil
  show ?case by (simp add: run_def)
next
  case (Cons op ops)
  then have q: "\<not> writes_tod op s" and r: "tod_quiet ops (step op s)" by simp_all
  have "run (op # ops) s = run ops (step op s)" by (simp add: run_def)
  with Cons.IH [OF r] step_tod_quiet [OF q] show ?case by simp
qed

text \<open>
  Claim C7, amended. After a call of \<^verbatim>\<open>rdm_get_tod\<close> the changed flag is false. If
  nothing that writes the table happens before the next call, that is, no discovery
  cycle and no call of \<^verbatim>\<open>rdm_flush_tod\<close> (in particular when the second call follows
  the first directly), the second call returns the same array and the same count as the
  first, the flag is false when the second call is made, and false after it.
\<close>

theorem rdm_get_tod_idempotent:
  assumes "tod_quiet ops (snd (rdm_get_tod s))"
  shows "fst (rdm_get_tod (run ops (snd (rdm_get_tod s)))) = fst (rdm_get_tod s)
       \<and> \<not> rdm_tod_changed (snd (rdm_get_tod s))
       \<and> \<not> rdm_tod_changed (run ops (snd (rdm_get_tod s)))
       \<and> \<not> rdm_tod_changed (snd (rdm_get_tod (run ops (snd (rdm_get_tod s)))))"
  using run_tod_quiet [OF assms]
  by (simp add: rdm_get_tod_def rdm_tod_changed_def)

theorem rdm_get_tod_idempotent_witness:
  "tod_quiet [Tick (at_ms 5), TodChanged, Irq [1, 2, 3]] (snd (rdm_get_tod (rdm_flush_tod rdm_boot)))
   \<and> fst (rdm_get_tod (run [Tick (at_ms 5), TodChanged, Irq [1, 2, 3]]
                          (snd (rdm_get_tod (rdm_flush_tod rdm_boot)))))
       = fst (rdm_get_tod (rdm_flush_tod rdm_boot))
   \<and> rdm_tod_changed (rdm_flush_tod rdm_boot)
   \<and> \<not> rdm_tod_changed (run [Tick (at_ms 5), TodChanged, Irq [1, 2, 3]]
                             (snd (rdm_get_tod (rdm_flush_tod rdm_boot))))"
proof -
  have "\<not> runs_discovery (at_ms 5) (snd (rdm_get_tod (rdm_flush_tod rdm_boot)))"
    by (simp add: runs_discovery_def rdm_get_tod_def rdm_flush_tod_def rdm_boot_def at_ms_def
          RDM_DISCOVERY_INTERVAL_MS_def)
  then have q: "tod_quiet [Tick (at_ms 5), TodChanged, Irq [1, 2, 3]]
      (snd (rdm_get_tod (rdm_flush_tod rdm_boot)))" by simp
  have c: "rdm_tod_changed (rdm_flush_tod rdm_boot)"
    by (simp add: rdm_tod_changed_def rdm_flush_tod_def)
  from rdm_get_tod_idempotent [OF q] q c show ?thesis by blast
qed

text \<open>
  Claim C5, as stated, fails: \<^verbatim>\<open>rdm_flush_tod\<close> sets the changed flag.
\<close>

theorem flush_sets_changed_flag:
  "\<not> s_tod_changed rdm_boot \<and> s_tod_changed (step FlushTod rdm_boot)"
  by (simp add: rdm_boot_def rdm_flush_tod_def)

text \<open>
  Claim C5, amended. In every state, an operation that turns the changed flag from
  false to true is \<^verbatim>\<open>rdm_flush_tod\<close> or a call of \<^verbatim>\<open>rdm_task\<close> that ran a discovery
  cycle and found the new table different from the copy of the previous one; an
  operation that turns it from true to false is \<^verbatim>\<open>rdm_get_tod\<close>. No other operation
  changes the flag.
\<close>

theorem changed_flag_writers:
  "(\<not> s_tod_changed s \<and> s_tod_changed (step op s) \<longrightarrow>
      op = FlushTod \<or> (\<exists>env. op = Tick env \<and> runs_discovery env s \<and> tod_differs (step op s)))
   \<and> (s_tod_changed s \<and> \<not> s_tod_changed (step op s) \<longrightarrow> op = GetTod)"
proof (cases "writes_tod op s")
  case False
  from step_tod_quiet(3) [OF False] have "\<not> (\<not> s_tod_changed s \<and> s_tod_changed (step op s))"
    by blast
  moreover have "s_tod_changed s \<and> \<not> s_tod_changed (step op s) \<longrightarrow> op = GetTod"
  proof (cases op)
    case (Tick env)
    with False show ?thesis using rdm_task_tod_quiet [of env s] by simp
  next
    case (Enqueue dat len ip port)
    then show ?thesis by (simp add: rdm_enqueue_request_def Let_def)
  next
    case (SetCallback cb)
    then show ?thesis by (simp add: rdm_set_response_callback_def)
  qed (use False in simp_all)
  ultimately show ?thesis by blast
next
  case True
  show ?thesis
  proof (cases op)
    case (Tick env)
    with True have r: "runs_discovery env s" by simp
    from rdm_task_discovery_flag [OF r] Tick r show ?thesis by auto
  next
    case FlushTod
    then show ?thesis by (simp add: rdm_flush_tod_def)
  qed (use True in simp_all)
qed

theorem changed_flag_writers_witness:
  "\<not> s_tod_changed rdm_boot \<and> s_tod_changed (step FlushTod rdm_boot)
   \<and> s_tod_changed (rdm_flush_tod rdm_boot)
   \<and> \<not> s_tod_changed (step GetTod (rdm_flush_tod rdm_boot))
   \<and> (FlushTod = FlushTod \<or>
        (\<exists>env. FlushTod = Tick env \<and> runs_discovery env rdm_boot
           \<and> tod_differs (step FlushTod rdm_boot)))
   \<and> GetTod = GetTod"
proof -
  have a: "\<not> s_tod_changed rdm_boot \<and> s_tod_changed (step FlushTod rdm_boot)"
    by (simp add: rdm_boot_def rdm_flush_tod_def)
  have b: "s_tod_changed (rdm_flush_tod rdm_boot)
     \<and> \<not> s_tod_changed (step GetTod (rdm_flush_tod rdm_boot))"
    by (simp add: rdm_flush_tod_def rdm_get_tod_def)
  from changed_flag_writers [of rdm_boot FlushTod]
    changed_flag_writers [of "rdm_flush_tod rdm_boot" GetTod] a b
  show ?thesis by blast
qed

text \<open>
  Claim C6 at the failing input: a flush five seconds after boot, then a call of the
  task in the idle state with nothing queued. The table count is zero after the flush,
  but the task does not run a discovery cycle: it changes nothing.
\<close>

theorem flush_within_first_interval:
  "s_tod_count (rdm_flush_tod rdm_boot) = 0
   \<and> s_state (rdm_flush_tod rdm_boot) = SM_IDLE
   \<and> s_req_count (rdm_flush_tod rdm_boot) = 0
   \<and> \<not> runs_discovery \<lparr>now_ms = 5000, now_later = 5000, disc_bus = (\<lambda>sent. [])\<rparr>
         (rdm_flush_tod rdm_boot)
   \<and> rdm_task \<lparr>now_ms = 5000, now_later = 5000, disc_bus = (\<lambda>sent. [])\<rparr>
         (rdm_flush_tod rdm_boot) = rdm_flush_tod rdm_boot"
proof -
  have q: "\<not> runs_discovery \<lparr>now_ms = 5000, now_later = 5000, disc_bus = (\<lambda>sent. [])\<rparr>
         (rdm_flush_tod rdm_boot)"
    by (simp add: runs_discovery_def rdm_flush_tod_def rdm_boot_def RDM_DISCOVERY_INTERVAL_MS_def)
  have i: "s_state (rdm_flush_tod rdm_boot) = SM_IDLE" "s_req_count (rdm_flush_tod rdm_boot) = 0"
    "s_tod_count (rdm_flush_tod rdm_boot) = 0"
    by (simp_all add: rdm_flush_tod_def rdm_boot_def)
  from rdm_task_idle_quiet [OF i(1,2) q] i q show ?thesis by simp
qed

theorem flush_within_first_interval_witness:
  "trace (rdm_task \<lparr>now_ms = 5000, now_later = 5000, disc_bus = (\<lambda>sent. [])\<rparr>
            (rdm_flush_tod rdm_boot)) = []
   \<and> s_discovery_last_ms (rdm_task \<lparr>now_ms = 5000, now_later = 5000,
            disc_bus = (\<lambda>sent. [])\<rparr> (rdm_flush_tod rdm_boot)) = 0"
  using flush_within_first_interval by (simp add: rdm_flush_tod_def rdm_boot_def)

text \<open>
  The flush does force a cycle on the next idle call whenever the clock reads at least
  the discovery interval.
\<close>

lemma flush_forces_discovery_late:
  assumes "s_state s = SM_IDLE" "s_req_count s = 0" "now_ms env \<ge> RDM_DISCOVERY_INTERVAL_MS"
  shows "runs_discovery env (rdm_flush_tod s)"
  using assms by (simp add: runs_discovery_def rdm_flush_tod_def)

subsection \<open>The request queue and the transaction state machine\<close>

lemma mod_shift_neq:
  assumes "i < c" "c < n" shows "(h + i) mod n \<noteq> (h + c) mod (n::nat)"
proof
  assume "(h + i) mod n = (h + c) mod n"
  then have "(h + c) mod n = (h + i) mod n" by simp
  moreover have "h + i \<le> h + c" using assms by simp
  ultimately have "n dvd (h + c) - (h + i)" by (simp add: mod_eq_dvd_iff_nat)
  then have "n dvd c - i" by simp
  moreover have "0 < c - i" "c - i < n" using assms by simp_all
  ultimately show False by (simp add: nat_dvd_not_less)
qed

lemma unat_idx5: "unat (of_nat (n mod 5) :: u8) = n mod 5"
proof -
  have "n mod 5 < 256" by (rule less_trans [of _ 5]) simp_all
  then show ?thesis by (simp add: unat_of_nat)
qed

lemma unat_count_suc: "unat (c :: u8) < 5 \<Longrightarrow> unat (c + 1) = unat c + 1"
  by (simp add: unat_word_ariths)

lemma unat_count_pred: "(c :: u8) \<noteq> 0 \<Longrightarrow> unat (c - 1) = unat c - 1"
  by (simp add: unat_minus_one)

lemma eng_inv_boot: "eng_inv rdm_boot"
  by (simp add: eng_inv_def rdm_boot_def RDM_REQUEST_BUFFER_SIZE_def)

lemma enqueue_accept_iff:
  "fst (rdm_enqueue_request dat len ip port s) \<longleftrightarrow>
     unat (s_req_count s) < RDM_REQUEST_BUFFER_SIZE \<and> unat len \<le> RDM_MAX_PACKET_SIZE"
  by (auto simp: rdm_enqueue_request_def Let_def)

lemma enqueue_reject: "\<not> fst (rdm_enqueue_request dat len ip port s) \<Longrightarrow>
    snd (rdm_enqueue_request dat len ip port s) = s"
  by (auto simp: rdm_enqueue_request_def Let_def split: if_splits)

lemma enqueue_accept:
  assumes "fst (rdm_enqueue_request dat len ip port s)"
  shows "snd (rdm_enqueue_request dat len ip port s) =
     s\<lparr>s_req_buf := (s_req_buf s)[unat (s_req_tail s) :=
          (s_req_buf s ! unat (s_req_tail s))
            \<lparr>data := memcpy_at (data (s_req_buf s ! unat (s_req_tail s))) 0 dat (unat len),
             length_r := len, src_ip := ip, src_port := port, in_use := True\<rparr>],
        s_req_tail := of_nat ((unat (s_req_tail s) + 1) mod 5),
        s_req_count := s_req_count s + 1\<rparr>"
  using assms
  by (auto simp: rdm_enqueue_request_def Let_def RDM_REQUEST_BUFFER_SIZE_def split: if_splits)

lemma enqueue_inv:
  assumes "eng_inv s" shows "eng_inv (snd (rdm_enqueue_request dat len ip port s))"
proof (cases "fst (rdm_enqueue_request dat len ip port s)")
  case False
  with assms show ?thesis by (simp add: enqueue_reject)
next
  case True
  then have c: "unat (s_req_count s) < 5"
    by (simp add: enqueue_accept_iff RDM_REQUEST_BUFFER_SIZE_def)
  then have c1: "unat (s_req_count s + 1) = unat (s_req_count s) + 1" by (rule unat_count_suc)
  then have nz: "s_req_count s + 1 \<noteq> 0" by (metis Suc_eq_plus1 nat.simps(3) unat_0)
  from assms have t: "unat (s_req_tail s) = (unat (s_req_head s) + unat (s_req_count s)) mod 5"
    by (simp add: eng_inv_def RDM_REQUEST_BUFFER_SIZE_def)
  have "((unat (s_req_head s) + unat (s_req_count s)) mod 5 + 1) mod 5
      = (unat (s_req_head s) + (unat (s_req_count s) + 1)) mod 5"
    by (simp add: mod_simps)
  with assms c c1 nz t show ?thesis
    unfolding enqueue_accept [OF True] eng_inv_def RDM_REQUEST_BUFFER_SIZE_def
    by (simp add: unat_idx5 del: of_nat_Suc of_nat_add) blast
qed

lemma req_view_in_use [simp]: "req_view (r\<lparr>in_use := b\<rparr>) = req_view r"
  by (simp add: req_view_def)

lemma pending_length [simp]: "length (pending s) = unat (s_req_count s)"
  by (simp add: pending_def)

lemma pending_hd:
  assumes "eng_inv s" "s_req_count s \<noteq> 0"
  shows "hd (pending s) = req_view (s_req_buf s ! unat (s_req_head s))"
proof -
  from assms(2) have "unat (s_req_count s) \<noteq> 0" by (simp add: unat_eq_0)
  moreover from assms(1) have "unat (s_req_head s) < 5"
    by (simp add: eng_inv_def RDM_REQUEST_BUFFER_SIZE_def)
  ultimately show ?thesis
    by (simp add: pending_def hd_map hd_upt RDM_REQUEST_BUFFER_SIZE_def)
qed

lemma enqueue_pending:
  assumes "eng_inv s" "fst (rdm_enqueue_request dat len ip port s)" "unat len \<le> length dat"
  shows "pending (snd (rdm_enqueue_request dat len ip port s))
           = pending s @ [(take (unat len) dat, ip, port)]"
proof (rule nth_equalityI)
  let ?s' = "snd (rdm_enqueue_request dat len ip port s)"
  let ?h = "unat (s_req_head s)" and ?c = "unat (s_req_count s)"
  from assms(2) have c: "?c < 5" by (simp add: enqueue_accept_iff RDM_REQUEST_BUFFER_SIZE_def)
  then have c1: "unat (s_req_count s + 1) = ?c + 1" by (rule unat_count_suc)
  from assms(1) have t: "unat (s_req_tail s) = (?h + ?c) mod 5" and l: "length (s_req_buf s) = 5"
    by (simp_all add: eng_inv_def RDM_REQUEST_BUFFER_SIZE_def)
  show "length (pending ?s') = length (pending s @ [(take (unat len) dat, ip, port)])"
    by (simp add: enqueue_accept [OF assms(2)] c1)
  fix i assume "i < length (pending ?s')"
  then have i: "i < ?c + 1" by (simp add: enqueue_accept [OF assms(2)] c1)
  show "pending ?s' ! i = (pending s @ [(take (unat len) dat, ip, port)]) ! i"
  proof (cases "i < ?c")
    case True
    then have "(?h + i) mod 5 \<noteq> (?h + ?c) mod 5" using c by (intro mod_shift_neq)
    with True i show ?thesis
      by (simp add: pending_def enqueue_accept [OF assms(2)] c1 t nth_append
            RDM_REQUEST_BUFFER_SIZE_def)
  next
    case False
    with i have e: "i = ?c" by simp
    have "take (unat len) (memcpy_at (data (s_req_buf s ! unat (s_req_tail s))) 0 dat (unat len))
        = take (unat len) dat"
      using assms(3) by (simp add: memcpy_at_def)
    with e l show ?thesis
      by (simp add: pending_def enqueue_accept [OF assms(2)] c1 t nth_append
            RDM_REQUEST_BUFFER_SIZE_def req_view_def)
  qed
qed

lemma enqueue_head_slot:
  assumes "eng_inv s" "s_req_count s \<noteq> 0"
  shows "s_req_buf (snd (rdm_enqueue_request dat len ip port s)) ! unat (s_req_head s)
           = s_req_buf s ! unat (s_req_head s)"
proof (cases "fst (rdm_enqueue_request dat len ip port s)")
  case False
  then show ?thesis by (simp add: enqueue_reject)
next
  case True
  let ?h = "unat (s_req_head s)" and ?c = "unat (s_req_count s)"
  from True have c: "?c < 5" by (simp add: enqueue_accept_iff RDM_REQUEST_BUFFER_SIZE_def)
  from assms(2) have "0 < ?c" by (simp add: unat_gt_0)
  then have "(?h + 0) mod 5 \<noteq> (?h + ?c) mod 5" using c by (rule mod_shift_neq)
  moreover from assms(1) have "unat (s_req_tail s) = (?h + ?c) mod 5" "?h < 5"
    by (simp_all add: eng_inv_def RDM_REQUEST_BUFFER_SIZE_def)
  ultimately have "unat (s_req_tail s) \<noteq> ?h" by simp
  then show ?thesis by (simp add: enqueue_accept [OF True])
qed

lemma task_wait_more:
  assumes "s_state s = SM_WAITING_RESPONSE" "\<not> response_valid_now s" "\<not> timed_out env s"
  shows "rdm_task env s = collect_response s"
  using assms by (simp add: rdm_task_waiting timed_out_def Let_def)

lemma task_wait_retry:
  assumes "s_state s = SM_WAITING_RESPONSE" "\<not> response_valid_now s" "timed_out env s"
    "s_retry s < RDM_RETRY_COUNT"
  shows "rdm_task env s = (collect_response s)\<lparr>s_retry := s_retry s + 1, s_state := SM_SENDING\<rparr>"
  using assms by (simp add: rdm_task_waiting timed_out_def Let_def)

lemma task_wait_done:
  assumes "s_state s = SM_WAITING_RESPONSE"
    "response_valid_now s \<or> timed_out env s \<and> \<not> s_retry s < RDM_RETRY_COUNT"
  shows "rdm_task env s =
     (collect_response s)
       \<lparr>g_rdm_bus_busy := False,
        s_req_buf := (s_req_buf s)[unat (s_active_idx s) :=
                       (s_req_buf s ! unat (s_active_idx s))\<lparr>in_use := False\<rparr>],
        s_req_head := of_nat ((unat (s_req_head s) + 1) mod 5),
        s_req_count := s_req_count s - 1,
        s_state := SM_IDLE,
        trace := trace s @
          (if s_resp_cb s then
             [if response_valid_now s
              then RespCb (Some (take (unat (s_resp_len (collect_response s)))
                                   (s_resp_buf (collect_response s))))
                     (s_resp_len (collect_response s))
                     (src_ip (s_req_buf s ! unat (s_active_idx s)))
                     (src_port (s_req_buf s ! unat (s_active_idx s)))
              else RespCb None 0 (src_ip (s_req_buf s ! unat (s_active_idx s)))
                     (src_port (s_req_buf s ! unat (s_active_idx s)))]
           else [])\<rparr>"
  using assms
  by (auto simp: rdm_task_waiting timed_out_def Let_def RDM_REQUEST_BUFFER_SIZE_def)

lemma task_wait_cases:
  obtains (wait) "\<not> response_valid_now s" "\<not> timed_out env s"
  | (again) "\<not> response_valid_now s" "timed_out env s" "s_retry s < RDM_RETRY_COUNT"
  | (finish) "response_valid_now s \<or> timed_out env s \<and> \<not> s_retry s < RDM_RETRY_COUNT"
  by blast

lemma eng_inv_collect: "eng_inv (collect_response s) = eng_inv s"
  by (simp add: eng_inv_def)

lemma eng_inv_task:
  assumes "eng_inv s" shows "eng_inv (rdm_task env s)"
proof (cases "s_state s")
  case SM_IDLE
  show ?thesis
  proof (cases "s_req_count s = 0")
    case nz: False
    with SM_IDLE assms show ?thesis by (simp add: rdm_task_start eng_inv_def)
  next
    case True
    show ?thesis
    proof (cases "runs_discovery env s")
      case False
      with SM_IDLE True assms show ?thesis by (simp add: rdm_task_idle_quiet)
    next
      case True
      with SM_IDLE assms show ?thesis by (simp add: rdm_task_discovery Let_def eng_inv_def)
    qed
  qed
next
  case SM_SENDING
  with assms show ?thesis by (simp add: rdm_task_sending eng_inv_def)
next
  case SM_WAITING_RESPONSE
  from assms SM_WAITING_RESPONSE have nz: "s_req_count s \<noteq> 0" by (simp add: eng_inv_def)
  show ?thesis
  proof (cases rule: task_wait_cases [of s env])
    case wait
    with SM_WAITING_RESPONSE assms show ?thesis by (simp add: task_wait_more eng_inv_collect)
  next
    case again
    with SM_WAITING_RESPONSE assms show ?thesis by (simp add: task_wait_retry eng_inv_def)
  next
    case finish
    let ?h = "unat (s_req_head s)" and ?c = "unat (s_req_count s)"
    from nz have c: "0 < ?c" by (simp add: unat_gt_0)
    then have "?h + ?c = (?h + 1) + (?c - 1)" by simp
    then have "(?h + ?c) mod 5 = ((?h + 1) mod 5 + (?c - 1)) mod 5"
      by (simp only: mod_add_left_eq)
    with assms nz c show ?thesis
      unfolding task_wait_done [OF SM_WAITING_RESPONSE finish] eng_inv_def RDM_REQUEST_BUFFER_SIZE_def
      by (simp add: unat_idx5 unat_count_pred del: of_nat_Suc of_nat_add) arith
  qed
qed (use assms in \<open>simp_all add: rdm_task_other\<close>)

lemma eng_inv_step:
  assumes "eng_inv s" shows "eng_inv (step op s)"
proof (cases op)
  case (Tick env)
  with assms show ?thesis by (simp add: eng_inv_task)
next
  case (Enqueue dat len ip port)
  with assms show ?thesis by (simp add: enqueue_inv)
next
  case (Irq fifo)
  with assms show ?thesis by (simp add: eng_inv_def)
qed (use assms in \<open>simp_all add: eng_inv_def rdm_get_tod_def rdm_flush_tod_def
       rdm_set_response_callback_def\<close>)

lemma pending_task:
  assumes "eng_inv s"
  shows "pending (rdm_task env s) =
     (if s_state s = SM_WAITING_RESPONSE \<and>
         (response_valid_now s \<or> timed_out env s \<and> \<not> s_retry s < RDM_RETRY_COUNT)
      then tl (pending s) else pending s)"
proof (cases "s_state s")
  case SM_IDLE
  show ?thesis
  proof (cases "s_req_count s = 0")
    case nz: False
    with SM_IDLE show ?thesis by (simp add: rdm_task_start pending_def)
  next
    case True
    show ?thesis
    proof (cases "runs_discovery env s")
      case False
      with SM_IDLE True show ?thesis by (simp add: rdm_task_idle_quiet)
    next
      case True
      with SM_IDLE show ?thesis by (simp add: rdm_task_discovery Let_def pending_def)
    qed
  qed
next
  case SM_SENDING
  then show ?thesis by (simp add: rdm_task_sending pending_def)
next
  case SM_WAITING_RESPONSE
  from assms SM_WAITING_RESPONSE have nz: "s_req_count s \<noteq> 0"
    and a: "s_active_idx s = s_req_head s" and h: "unat (s_req_head s) < 5"
    and l: "length (s_req_buf s) = 5"
    by (simp_all add: eng_inv_def RDM_REQUEST_BUFFER_SIZE_def)
  show ?thesis
  proof (cases rule: task_wait_cases [of s env])
    case wait
    with SM_WAITING_RESPONSE show ?thesis by (auto simp: task_wait_more pending_def)
  next
    case again
    with SM_WAITING_RESPONSE show ?thesis by (auto simp: task_wait_retry pending_def)
  next
    case finish
    let ?h = "unat (s_req_head s)" and ?c = "unat (s_req_count s)"
    let ?buf' = "(s_req_buf s)[?h := (s_req_buf s ! ?h)\<lparr>in_use := False\<rparr>]"
    have v: "req_view (?buf' ! j) = req_view (s_req_buf s ! j)" if "j < 5" for j
      using that l by (cases "j = ?h") simp_all
    have "pending (rdm_task env s) = tl (pending s)"
    proof (rule nth_equalityI)
      show "length (pending (rdm_task env s)) = length (tl (pending s))"
        using nz by (simp add: task_wait_done [OF SM_WAITING_RESPONSE finish] unat_count_pred)
      fix i assume "i < length (pending (rdm_task env s))"
      then have i: "i < ?c - 1"
        using nz by (simp add: task_wait_done [OF SM_WAITING_RESPONSE finish] unat_count_pred)
      then have i': "Suc i < ?c" by arith
      have "((?h + 1) mod 5 + i) mod 5 = (?h + Suc i) mod 5" by (simp add: mod_simps)
      with i i' nz show "pending (rdm_task env s) ! i = tl (pending s) ! i"
        unfolding task_wait_done [OF SM_WAITING_RESPONSE finish]
        by (simp add: pending_def a v nth_tl unat_idx5 unat_count_pred RDM_REQUEST_BUFFER_SIZE_def
              del: of_nat_Suc of_nat_add)
    qed
    with SM_WAITING_RESPONSE finish show ?thesis by simp
  qed
qed (simp_all add: rdm_task_other)

lemma run_Cons [simp]: "run (op # ops) s = run ops (step op s)"
  by (simp add: run_def)

lemma run_Nil [simp]: "run [] s = s"
  by (simp add: run_def)

lemma non_tick_keeps:
  assumes "\<not> is_tick op"
  shows "s_state (step op s) = s_state s" "s_retry (step op s) = s_retry s"
    "trace (step op s) = trace s" "s_req_head (step op s) = s_req_head s"
    "op \<noteq> SetCallback False \<Longrightarrow> s_resp_cb s \<Longrightarrow> s_resp_cb (step op s)"
    "\<not> validates_at op s"
proof -
  have "s_state (step op s) = s_state s \<and> s_retry (step op s) = s_retry s \<and>
    trace (step op s) = trace s \<and> s_req_head (step op s) = s_req_head s \<and>
    (op \<noteq> SetCallback False \<longrightarrow> s_resp_cb s \<longrightarrow> s_resp_cb (step op s)) \<and>
    \<not> validates_at op s"
    using assms
    by (cases op) (auto simp: rdm_enqueue_request_def Let_def rdm_get_tod_def rdm_flush_tod_def
        rdm_set_response_callback_def)
  then show "s_state (step op s) = s_state s" "s_retry (step op s) = s_retry s"
    "trace (step op s) = trace s" "s_req_head (step op s) = s_req_head s"
    "op \<noteq> SetCallback False \<Longrightarrow> s_resp_cb s \<Longrightarrow> s_resp_cb (step op s)"
    "\<not> validates_at op s"
    by simp_all
qed

lemma non_tick_head_slot:
  assumes "\<not> is_tick op" "eng_inv s" "s_req_count s \<noteq> 0"
  shows "s_req_buf (step op s) ! unat (s_req_head s) = s_req_buf s ! unat (s_req_head s)"
  using assms
  by (cases op) (simp_all add: enqueue_head_slot rdm_get_tod_def rdm_flush_tod_def
        rdm_set_response_callback_def)

lemma retry_bounds:
  "(r :: u8) < RDM_RETRY_COUNT \<Longrightarrow> unat (r + 1) = unat r + 1 \<and> unat (r + 1) \<le> 2"
  "\<not> (r :: u8) < RDM_RETRY_COUNT \<Longrightarrow> unat r \<le> 2 \<Longrightarrow> unat r = 2"
  by (simp_all add: RDM_RETRY_COUNT_def word_less_nat_alt unat_word_ariths)

lemma in_flight:
  assumes "completes ops st" "eng_inv st" "s_resp_cb st" "SetCallback False \<notin> set ops"
    "s_state st = SM_SENDING \<or> s_state st = SM_WAITING_RESPONSE"
    "req_view (s_req_buf st ! unat (s_req_head st)) = (bytes, ip, port)"
    "unat (s_retry st) \<le> 2"
    "trace st = tr0 @ replicate (unat (s_retry st)
                  + (if s_state st = SM_WAITING_RESPONSE then 1 else 0)) (BusSend bytes)"
  shows "s_req_head (run ops st) = of_nat ((unat (s_req_head st) + 1) mod 5) \<and>
     (if ever_validates ops st
      then rdm_validate_response (s_resp_buf (run ops st)) (s_resp_len (run ops st)) \<and>
           (\<exists>n. 1 \<le> n \<and> n \<le> 3 \<and>
              trace (run ops st) = tr0 @ replicate n (BusSend bytes) @
                [RespCb (Some (take (unat (s_resp_len (run ops st))) (s_resp_buf (run ops st))))
                   (s_resp_len (run ops st)) ip port])
      else trace (run ops st) = tr0 @ replicate 3 (BusSend bytes) @ [RespCb None 0 ip port])"
  using assms
proof (induction ops arbitrary: st)
  case Nil
  then show ?case by simp
next
  case (Cons op ops)
  let ?st' = "step op st"
  note inv = \<open>eng_inv st\<close>
  from Cons.prems(5) inv have act: "s_active_idx st = s_req_head st" and nz: "s_req_count st \<noteq> 0"
    by (auto simp: eng_inv_def)
  from Cons.prems(6) have view:
    "take (unat (length_r (s_req_buf st ! unat (s_req_head st))))
       (data (s_req_buf st ! unat (s_req_head st))) = bytes"
    "src_ip (s_req_buf st ! unat (s_req_head st)) = ip"
    "src_port (s_req_buf st ! unat (s_req_head st)) = port"
    by (simp_all add: req_view_def)
  from Cons.prems(4) have nocb: "op \<noteq> SetCallback False" "SetCallback False \<notin> set ops" by auto
  have inv': "eng_inv ?st'" using inv by (rule eng_inv_step)
  show ?case
  proof (cases "s_state ?st' = SM_IDLE")
    case False
    with Cons.prems(1) have comp: "completes ops ?st'" by simp
    from False inv' have st': "s_state ?st' = SM_SENDING \<or> s_state ?st' = SM_WAITING_RESPONSE"
      by (auto simp: eng_inv_def)
    have keep: "s_resp_cb ?st' \<and> s_req_head ?st' = s_req_head st \<and>
        req_view (s_req_buf ?st' ! unat (s_req_head ?st')) = (bytes, ip, port) \<and>
        unat (s_retry ?st') \<le> 2 \<and> \<not> validates_at op st \<and>
        trace ?st' = tr0 @ replicate (unat (s_retry ?st')
                  + (if s_state ?st' = SM_WAITING_RESPONSE then 1 else 0)) (BusSend bytes)"
    proof (cases "is_tick op")
      case nt: False
      from non_tick_keeps [OF nt, of st] non_tick_head_slot [OF nt inv nz] nocb(1)
        Cons.prems(3,5,6,7,8)
      show ?thesis by auto
    next
      case True
      then obtain env where op: "op = Tick env" by (cases op) auto
      from Cons.prems(5) show ?thesis
      proof
        assume sd: "s_state st = SM_SENDING"
        with Cons.prems(3,6,7,8) act view show ?thesis
          by (simp add: op rdm_task_sending replicate_append_same)
      next
        assume wt: "s_state st = SM_WAITING_RESPONSE"
        show ?thesis
        proof (cases rule: task_wait_cases [of st env])
          case wait
          with wt Cons.prems(3,6,7,8) show ?thesis
            by (simp add: op task_wait_more)
        next
          case again
          with wt Cons.prems(3,6,7,8) retry_bounds(1) [OF again(3)] show ?thesis
            by (simp add: op task_wait_retry)
        next
          case finish
          with wt False show ?thesis by (simp add: op task_wait_done)
        qed
      qed
    qed
    from keep have nv: "ever_validates (op # ops) st = ever_validates ops ?st'" by simp
    from keep have h: "s_req_head ?st' = s_req_head st" by simp
    from Cons.IH [OF comp inv' _ nocb(2) st'] keep
    show ?thesis unfolding nv run_Cons h by blast
  next
    case True
    with Cons.prems(1) have e: "ops = []" by simp
    have tick: "is_tick op"
    proof (rule ccontr)
      assume "\<not> is_tick op"
      from non_tick_keeps(1) [OF this, of st] True Cons.prems(5) show False by auto
    qed
    then obtain env where op: "op = Tick env" by (cases op) auto
    from True Cons.prems(5) have wt: "s_state st = SM_WAITING_RESPONSE"
      by (auto simp: op rdm_task_sending)
    have fin: "response_valid_now st \<or> timed_out env st \<and> \<not> s_retry st < RDM_RETRY_COUNT"
    proof (cases rule: task_wait_cases [of st env])
      case wait
      with wt True show ?thesis by (simp add: op task_wait_more)
    next
      case again
      with wt True show ?thesis by (simp add: op task_wait_retry)
    next
      case finish
      then show ?thesis .
    qed
    note d = task_wait_done [OF wt fin]
    show ?thesis
    proof (cases "response_valid_now st")
      case v: True
      have "unat (s_retry st) + 1 \<le> 3" using Cons.prems(7) by simp
      with v wt Cons.prems(3,8) view act show ?thesis
        unfolding e op
        by (simp add: d response_valid_now_def del: of_nat_Suc of_nat_add)
           (rule exI [of _ "unat (s_retry st) + 1"], simp)
    next
      case nv: False
      with fin have "\<not> s_retry st < RDM_RETRY_COUNT" by simp
      from retry_bounds(2) [OF this Cons.prems(7)] have "unat (s_retry st) = 2" .
      with nv wt Cons.prems(3,8) view act show ?thesis
        unfolding e op
        by (simp add: d del: of_nat_Suc of_nat_add)
    qed
  qed
qed

lemma completes_idle: "completes ops s \<Longrightarrow> s_state (run ops s) = SM_IDLE"
proof (induction ops arbitrary: s)
  case Nil
  then show ?case by simp
next
  case (Cons op ops)
  then show ?case by (cases "s_state (step op s) = SM_IDLE") simp_all
qed

lemma validate_short: "len < 4 \<Longrightarrow> \<not> rdm_validate_response buf len"
  by (simp add: rdm_validate_response_def)

lemma silent_wait:
  assumes "s_state s = SM_WAITING_RESPONSE" "s_rx_head s = s_rx_tail s" "s_resp_len s = 0"
  shows "\<not> response_valid_now s"
  using assms by (simp add: response_valid_now_def collect_response_empty validate_short)

text \<open>
  Progress on a silent bus: if no byte arrives and every second call of the task comes
  at least the response timeout after the call before it, six calls of the task carry
  the transaction of the oldest request to its end, and no call finds a valid response.
\<close>

lemma silent_transaction_completes:
  assumes "s_state s = SM_IDLE" "s_req_count s \<noteq> 0"
    "now_later e1 - now_later e0 \<ge> RDM_RESPONSE_TIMEOUT_MS"
    "now_later e3 - now_later e2 \<ge> RDM_RESPONSE_TIMEOUT_MS"
    "now_later e5 - now_later e4 \<ge> RDM_RESPONSE_TIMEOUT_MS"
  shows "completes [Tick e0, Tick e1, Tick e2, Tick e3, Tick e4, Tick e5] s
     \<and> \<not> ever_validates [Tick e0, Tick e1, Tick e2, Tick e3, Tick e4, Tick e5] s"
proof -
  let ?s1 = "rdm_task e0 s"
  have s1: "s_state ?s1 = SM_WAITING_RESPONSE" "s_rx_head ?s1 = s_rx_tail ?s1"
    "s_resp_len ?s1 = 0" "s_retry ?s1 = 0" "s_timeout_start_ms ?s1 = now_later e0"
    using assms(1,2) by (simp_all add: rdm_task_start)
  have v1: "\<not> response_valid_now ?s1" by (rule silent_wait [OF s1(1-3)])
  have t1: "timed_out e1 ?s1" using assms(3) by (simp add: timed_out_def s1)
  have r1: "s_retry ?s1 < RDM_RETRY_COUNT" by (simp add: s1 RDM_RETRY_COUNT_def)
  let ?s2 = "rdm_task e1 ?s1"
  have e2: "?s2 = (collect_response ?s1)\<lparr>s_retry := s_retry ?s1 + 1, s_state := SM_SENDING\<rparr>"
    by (rule task_wait_retry [OF s1(1) v1 t1 r1])
  have s2: "s_state ?s2 = SM_SENDING" "s_retry ?s2 = 1"
    unfolding e2 by (simp_all add: s1)
  let ?s3 = "rdm_task e2 ?s2"
  have s3: "s_state ?s3 = SM_WAITING_RESPONSE" "s_rx_head ?s3 = s_rx_tail ?s3"
    "s_resp_len ?s3 = 0" "s_retry ?s3 = 1" "s_timeout_start_ms ?s3 = now_later e2"
    using s2 by (simp_all add: rdm_task_sending)
  have v3: "\<not> response_valid_now ?s3" by (rule silent_wait [OF s3(1-3)])
  have t3: "timed_out e3 ?s3" using assms(4) by (simp add: timed_out_def s3)
  have r3: "s_retry ?s3 < RDM_RETRY_COUNT" by (simp add: s3 RDM_RETRY_COUNT_def)
  let ?s4 = "rdm_task e3 ?s3"
  have e4: "?s4 = (collect_response ?s3)\<lparr>s_retry := s_retry ?s3 + 1, s_state := SM_SENDING\<rparr>"
    by (rule task_wait_retry [OF s3(1) v3 t3 r3])
  have s4: "s_state ?s4 = SM_SENDING" "s_retry ?s4 = 2"
    unfolding e4 by (simp_all add: s3)
  let ?s5 = "rdm_task e4 ?s4"
  have s5: "s_state ?s5 = SM_WAITING_RESPONSE" "s_rx_head ?s5 = s_rx_tail ?s5"
    "s_resp_len ?s5 = 0" "s_retry ?s5 = 2" "s_timeout_start_ms ?s5 = now_later e4"
    using s4 by (simp_all add: rdm_task_sending)
  have v5: "\<not> response_valid_now ?s5" by (rule silent_wait [OF s5(1-3)])
  have t5: "timed_out e5 ?s5" using assms(5) by (simp add: timed_out_def s5)
  have r5: "\<not> s_retry ?s5 < RDM_RETRY_COUNT" by (simp add: s5 RDM_RETRY_COUNT_def)
  let ?s6 = "rdm_task e5 ?s5"
  from t5 r5 have "response_valid_now ?s5 \<or> timed_out e5 ?s5 \<and> \<not> s_retry ?s5 < RDM_RETRY_COUNT"
    by simp
  from task_wait_done [OF s5(1) this] have s6: "s_state ?s6 = SM_IDLE" by simp
  from s1(1) s2(1) s3(1) s4(1) s5(1) s6 v1 v3 v5 assms(1) show ?thesis by simp
qed

text \<open>
  The outcome of a transaction that comes to its end. Take the module in the idle state
  with a request queued and a callback registered, and any sequence of operations that
  begins with a call of the task and carries the transaction of the oldest request to
  its end. If no call of the task finds the collected response valid, the request
  bytes have been sent exactly three times and the callback called once with the
  \<^verbatim>\<open>NULL\<close> payload; otherwise they have been sent between one and three times and
  the callback called once with the collected bytes.
\<close>

lemma transaction_safety:
  assumes "eng_inv s" "s_state s = SM_IDLE" "s_req_count s \<noteq> 0" "s_resp_cb s"
    "SetCallback False \<notin> set ops" "completes (Tick env # ops) s"
    "hd (pending s) = (bytes, ip, port)"
  shows "s_state (run (Tick env # ops) s) = SM_IDLE \<and>
     s_req_head (run (Tick env # ops) s)
       = of_nat ((unat (s_req_head s) + 1) mod RDM_REQUEST_BUFFER_SIZE) \<and>
     (if ever_validates (Tick env # ops) s
      then rdm_validate_response (s_resp_buf (run (Tick env # ops) s))
             (s_resp_len (run (Tick env # ops) s)) \<and>
           (\<exists>n. 1 \<le> n \<and> n \<le> 1 + unat RDM_RETRY_COUNT \<and>
              trace (run (Tick env # ops) s) = trace s @ replicate n (BusSend bytes) @
                [RespCb (Some (take (unat (s_resp_len (run (Tick env # ops) s)))
                                 (s_resp_buf (run (Tick env # ops) s))))
                   (s_resp_len (run (Tick env # ops) s)) ip port])
      else trace (run (Tick env # ops) s)
             = trace s @ replicate (1 + unat RDM_RETRY_COUNT) (BusSend bytes)
                 @ [RespCb None 0 ip port])"
proof -
  let ?st = "rdm_task env s"
  note st = rdm_task_start [OF assms(2,3), of env]
  from assms(1,3,7) have view: "req_view (s_req_buf s ! unat (s_req_head s)) = (bytes, ip, port)"
    by (simp add: pending_hd)
  then have b: "take (unat (length_r (s_req_buf s ! unat (s_req_head s))))
       (data (s_req_buf s ! unat (s_req_head s))) = bytes"
    by (simp add: req_view_def)
  have w: "s_state ?st = SM_WAITING_RESPONSE" by (simp add: st)
  with assms(6) have comp: "completes ops ?st" by simp
  have inv: "eng_inv ?st" using assms(1) by (rule eng_inv_task)
  have nv: "ever_validates (Tick env # ops) s = ever_validates ops ?st"
    using assms(2) by simp
  have main: "s_req_head (run ops ?st) = of_nat ((unat (s_req_head ?st) + 1) mod 5) \<and>
     (if ever_validates ops ?st
      then rdm_validate_response (s_resp_buf (run ops ?st)) (s_resp_len (run ops ?st)) \<and>
           (\<exists>n. 1 \<le> n \<and> n \<le> 3 \<and>
              trace (run ops ?st) = trace s @ replicate n (BusSend bytes) @
                [RespCb (Some (take (unat (s_resp_len (run ops ?st))) (s_resp_buf (run ops ?st))))
                   (s_resp_len (run ops ?st)) ip port])
      else trace (run ops ?st) = trace s @ replicate 3 (BusSend bytes) @ [RespCb None 0 ip port])"
  proof (rule in_flight [OF comp inv _ assms(5)])
    show "s_resp_cb ?st" using assms(4) by (simp add: st)
    show "s_state ?st = SM_SENDING \<or> s_state ?st = SM_WAITING_RESPONSE" using w by simp
    show "req_view (s_req_buf ?st ! unat (s_req_head ?st)) = (bytes, ip, port)"
      using view by (simp add: st)
    show "unat (s_retry ?st) \<le> 2" by (simp add: st)
    show "trace ?st = trace s @ replicate (unat (s_retry ?st)
        + (if s_state ?st = SM_WAITING_RESPONSE then 1 else 0)) (BusSend bytes)"
      by (simp add: st b)
  qed
  have hd: "s_req_head ?st = s_req_head s" by (simp add: st)
  have idle: "s_state (run ops ?st) = SM_IDLE"
    using completes_idle [OF assms(6)] by simp
  have three: "1 + unat RDM_RETRY_COUNT = 3" by (simp add: RDM_RETRY_COUNT_def)
  show ?thesis
    unfolding nv run_Cons step.simps RDM_REQUEST_BUFFER_SIZE_def three
    by (rule conjI [OF idle main [unfolded hd]])
qed

lemma scenario_start_facts:
  "eng_inv scenario_start" "s_state scenario_start = SM_IDLE" "s_req_count scenario_start \<noteq> 0"
  "s_resp_cb scenario_start" "hd (pending scenario_start) = (scenario_request, 0x0A000002, 6454)"
  "trace scenario_start = []"
  by code_simp+

lemma txn_rank_step:
  assumes "s_state st = SM_SENDING \<or> s_state st = SM_WAITING_RESPONSE" "unat (s_retry st) \<le> 2"
    "s_state (step op st) \<noteq> SM_IDLE"
  shows "(s_state (step op st) = SM_SENDING \<or> s_state (step op st) = SM_WAITING_RESPONSE)
     \<and> unat (s_retry (step op st)) \<le> 2
     \<and> txn_rank (step op st) + (if ripe op st then 1 else 0) \<le> txn_rank st"
proof (cases "is_tick op")
  case nt: False
  then have "\<not> ripe op st" by (cases op) simp_all
  with non_tick_keeps(1,2) [OF nt, of st] assms show ?thesis
    by (auto simp: txn_rank_def)
next
  case True
  then obtain env where op: "op = Tick env" by (cases op) auto
  from assms(1) show ?thesis
  proof
    assume sd: "s_state st = SM_SENDING"
    with assms(2) show ?thesis
      by (simp add: op rdm_task_sending txn_rank_def RDM_RETRY_COUNT_def)
  next
    assume wt: "s_state st = SM_WAITING_RESPONSE"
    show ?thesis
    proof (cases rule: task_wait_cases [of st env])
      case wait
      with wt assms(2) show ?thesis
        by (simp add: op task_wait_more txn_rank_def)
    next
      case again
      from retry_bounds(1) [OF again(3)] have b: "unat (s_retry st + 1) = unat (s_retry st) + 1"
        "unat (s_retry st) + 1 \<le> 2" by simp_all
      have e: "rdm_task env st = (collect_response st)\<lparr>s_retry := s_retry st + 1, s_state := SM_SENDING\<rparr>"
        by (rule task_wait_retry [OF wt again])
      have "ripe op st" using again by (simp add: op)
      moreover have "txn_rank (step op st) + 1 \<le> txn_rank st"
        using b wt unfolding op step.simps e txn_rank_def
        by (simp add: RDM_RETRY_COUNT_def)
      ultimately show ?thesis using b unfolding op step.simps e by simp
    next
      case finish
      with wt assms(3) show ?thesis by (simp add: op task_wait_done)
    qed
  qed
qed

lemma txn_rank_pos:
  "s_state st = SM_SENDING \<or> s_state st = SM_WAITING_RESPONSE \<Longrightarrow> unat (s_retry st) \<le> 2
     \<Longrightarrow> 0 < txn_rank st"
  by (auto simp: txn_rank_def RDM_RETRY_COUNT_def)

lemma in_flight_progress:
  assumes "s_state st = SM_SENDING \<or> s_state st = SM_WAITING_RESPONSE" "unat (s_retry st) \<le> 2"
    "txn_rank st \<le> ripe_ticks ops st"
  shows "\<exists>n\<le>length ops. completes (take n ops) st"
  using assms
proof (induction ops arbitrary: st)
  case Nil
  with txn_rank_pos [of st] show ?case by simp
next
  case (Cons op ops)
  show ?case
  proof (cases "s_state (step op st) = SM_IDLE")
    case True
    then have "completes (take 1 (op # ops)) st" by simp
    then show ?thesis by (intro exI [of _ 1]) simp
  next
    case False
    from txn_rank_step [OF Cons.prems(1,2) False] Cons.prems(3)
    have st': "s_state (step op st) = SM_SENDING \<or> s_state (step op st) = SM_WAITING_RESPONSE"
      and r: "unat (s_retry (step op st)) \<le> 2"
      and k: "txn_rank (step op st) \<le> ripe_ticks ops (step op st)"
      by (simp_all split: if_splits)
    from Cons.IH [OF st' r k] obtain n where n: "n \<le> length ops"
      "completes (take n ops) (step op st)" by blast
    with False have "completes (take (Suc n) (op # ops)) st" by simp
    with n(1) show ?thesis by (intro exI [of _ "Suc n"]) simp
  qed
qed

lemma completes_unique:
  "completes (take n ops) s \<Longrightarrow> completes (take m ops) s \<Longrightarrow> take n ops = take m ops"
proof (induction ops arbitrary: n m s)
  case Nil
  then show ?case by simp
next
  case (Cons op ops)
  from Cons.prems obtain n' m' where nm: "n = Suc n'" "m = Suc m'"
    by (cases n; cases m) simp_all
  show ?case
  proof (cases "s_state (step op s) = SM_IDLE")
    case True
    with Cons.prems show ?thesis by (auto simp: nm)
  next
    case False
    with Cons.prems have "completes (take n' ops) (step op s)" "completes (take m' ops) (step op s)"
      by (simp_all add: nm)
    from Cons.IH [OF this] show ?thesis by (simp add: nm)
  qed
qed

text \<open>
  Claim C1. Take the module in the idle state with a request queued and a callback
  registered, and any sequence of operations (calls of the task, enqueues, table
  accesses, receive interrupts delivering any bytes at all) that begins with a call of
  the task and in which at least \<open>2 * (1 + RDM_RETRY_COUNT) = 6\<close> calls of the task are
  ripe, that is, do not fall inside a running response window. Then the transaction of
  the oldest request comes to its end within the sequence: some prefix of it carries
  the state machine back to the idle state, with the head index advanced by one slot.
  If no call of the task in that prefix finds the collected response valid, whether
  because nothing arrived or because what arrived was malformed or had a wrong
  checksum, the module has sent the request bytes exactly \<open>1 + RDM_RETRY_COUNT = 3\<close>
  times and then called the callback once, with the \<^verbatim>\<open>NULL\<close> payload, length 0 and the
  requester's address and port. If some call finds it valid, the module has sent the
  request bytes between one and three times and then called the callback once with the
  collected bytes and their number. In both cases nothing else is sent.
\<close>

theorem transaction_outcome:
  assumes "eng_inv s" "s_state s = SM_IDLE" "s_req_count s \<noteq> 0" "s_resp_cb s"
    "SetCallback False \<notin> set ops" "hd (pending s) = (bytes, ip, port)"
    "2 * (1 + unat RDM_RETRY_COUNT) \<le> ripe_ticks (Tick env # ops) s"
  shows "\<exists>n\<le>length ops.
     completes (Tick env # take n ops) s \<and>
     s_state (run (Tick env # take n ops) s) = SM_IDLE \<and>
     s_req_head (run (Tick env # take n ops) s)
       = of_nat ((unat (s_req_head s) + 1) mod RDM_REQUEST_BUFFER_SIZE) \<and>
     (if ever_validates (Tick env # take n ops) s
      then rdm_validate_response (s_resp_buf (run (Tick env # take n ops) s))
             (s_resp_len (run (Tick env # take n ops) s)) \<and>
           (\<exists>k. 1 \<le> k \<and> k \<le> 1 + unat RDM_RETRY_COUNT \<and>
              trace (run (Tick env # take n ops) s) = trace s @ replicate k (BusSend bytes) @
                [RespCb (Some (take (unat (s_resp_len (run (Tick env # take n ops) s)))
                                 (s_resp_buf (run (Tick env # take n ops) s))))
                   (s_resp_len (run (Tick env # take n ops) s)) ip port])
      else trace (run (Tick env # take n ops) s)
             = trace s @ replicate (1 + unat RDM_RETRY_COUNT) (BusSend bytes)
                 @ [RespCb None 0 ip port])"
proof -
  let ?st = "rdm_task env s"
  note st = rdm_task_start [OF assms(2,3), of env]
  have w: "s_state ?st = SM_WAITING_RESPONSE" and r: "unat (s_retry ?st) \<le> 2"
    by (simp_all add: st)
  have "ripe (Tick env) s" using assms(2) by simp
  with assms(7) have "txn_rank ?st \<le> ripe_ticks ops ?st"
    by (simp add: txn_rank_def w st RDM_RETRY_COUNT_def)
  from in_flight_progress [OF _ r this] w obtain n where n: "n \<le> length ops"
    "completes (take n ops) ?st" by blast
  from n(2) w have c: "completes (Tick env # take n ops) s" by simp
  from assms(5) have "SetCallback False \<notin> set (take n ops)"
    by (auto dest: in_set_takeD)
  from transaction_safety [OF assms(1,2,3,4) this c assms(6)] c n(1)
  show ?thesis by blast
qed

lemma scenario_invalid_facts:
  "2 * (1 + unat RDM_RETRY_COUNT) \<le> ripe_ticks (Tick (at_ms 0) # scenario_invalid) scenario_start"
  "completes (Tick (at_ms 0) # scenario_invalid) scenario_start"
  "\<not> ever_validates (Tick (at_ms 0) # scenario_invalid) scenario_start"
  by code_simp+

lemma scenario_echo_on_facts:
  "2 * (1 + unat RDM_RETRY_COUNT) \<le> ripe_ticks (Tick (at_ms 0) # scenario_echo_on) scenario_start"
  "completes (Tick (at_ms 0) # scenario_echo) scenario_start"
  "ever_validates (Tick (at_ms 0) # scenario_echo) scenario_start"
  by code_simp+

lemma completes_prefix:
  assumes "completes (op # take n ops) s" "completes (op # take m ops) s"
  shows "take n ops = take m ops"
proof -
  from assms have "completes (take (Suc n) (op # ops)) s" "completes (take (Suc m) (op # ops)) s"
    by simp_all
  from completes_unique [OF this] show ?thesis by simp
qed

theorem transaction_outcome_witness:
  "2 * (1 + unat RDM_RETRY_COUNT) \<le> ripe_ticks (Tick (at_ms 0) # scenario_invalid) scenario_start
   \<and> completes (Tick (at_ms 0) # scenario_invalid) scenario_start
   \<and> \<not> ever_validates (Tick (at_ms 0) # scenario_invalid) scenario_start
   \<and> trace (run (Tick (at_ms 0) # scenario_invalid) scenario_start)
       = [BusSend scenario_request, BusSend scenario_request, BusSend scenario_request,
          RespCb None 0 0x0A000002 6454]
   \<and> 2 * (1 + unat RDM_RETRY_COUNT) \<le> ripe_ticks (Tick (at_ms 0) # scenario_echo_on) scenario_start
   \<and> completes (Tick (at_ms 0) # scenario_echo) scenario_start
   \<and> ever_validates (Tick (at_ms 0) # scenario_echo) scenario_start
   \<and> (\<exists>k. 1 \<le> k \<and> k \<le> 1 + unat RDM_RETRY_COUNT \<and>
        trace (run (Tick (at_ms 0) # scenario_echo) scenario_start)
          = replicate k (BusSend scenario_request) @
            [RespCb (Some (take (unat (s_resp_len (run (Tick (at_ms 0) # scenario_echo) scenario_start)))
                             (s_resp_buf (run (Tick (at_ms 0) # scenario_echo) scenario_start))))
               (s_resp_len (run (Tick (at_ms 0) # scenario_echo) scenario_start))
               0x0A000002 6454])"
proof -
  note f = scenario_start_facts
  note i = scenario_invalid_facts
  note e = scenario_echo_on_facts
  have n1: "SetCallback False \<notin> set scenario_invalid" by (simp add: scenario_invalid_def)
  have n2: "SetCallback False \<notin> set scenario_echo_on"
    by (simp add: scenario_echo_on_def scenario_echo_def)
  have three: "replicate (1 + unat RDM_RETRY_COUNT) (BusSend scenario_request)
     = [BusSend scenario_request, BusSend scenario_request, BusSend scenario_request]"
    by (simp add: RDM_RETRY_COUNT_def numeral_3_eq_3)
  have t1: "trace (run (Tick (at_ms 0) # scenario_invalid) scenario_start)
       = [BusSend scenario_request, BusSend scenario_request, BusSend scenario_request,
          RespCb None 0 0x0A000002 6454]"
  proof -
    from transaction_outcome [OF f(1,2,3,4) n1 f(5) i(1)] obtain n where
      c: "completes (Tick (at_ms 0) # take n scenario_invalid) scenario_start"
      and o: "if ever_validates (Tick (at_ms 0) # take n scenario_invalid) scenario_start
        then rdm_validate_response
               (s_resp_buf (run (Tick (at_ms 0) # take n scenario_invalid) scenario_start))
               (s_resp_len (run (Tick (at_ms 0) # take n scenario_invalid) scenario_start)) \<and>
           (\<exists>k. 1 \<le> k \<and> k \<le> 1 + unat RDM_RETRY_COUNT \<and>
              trace (run (Tick (at_ms 0) # take n scenario_invalid) scenario_start)
                = trace scenario_start @ replicate k (BusSend scenario_request) @
                [RespCb (Some (take (unat (s_resp_len (run (Tick (at_ms 0) # take n scenario_invalid) scenario_start)))
                                 (s_resp_buf (run (Tick (at_ms 0) # take n scenario_invalid) scenario_start))))
                   (s_resp_len (run (Tick (at_ms 0) # take n scenario_invalid) scenario_start))
                   0x0A000002 6454])
        else trace (run (Tick (at_ms 0) # take n scenario_invalid) scenario_start)
             = trace scenario_start @ replicate (1 + unat RDM_RETRY_COUNT) (BusSend scenario_request)
                 @ [RespCb None 0 0x0A000002 6454]"
      by blast
    have "completes (Tick (at_ms 0) # take (length scenario_invalid) scenario_invalid) scenario_start"
      using i(2) by simp
    from completes_prefix [OF c this] have p: "take n scenario_invalid = scenario_invalid" by simp
    from o i(3) show ?thesis
      unfolding p by (simp only: f(6) three if_False append_Nil append_Cons)
  qed
  have t2: "\<exists>k. 1 \<le> k \<and> k \<le> 1 + unat RDM_RETRY_COUNT \<and>
        trace (run (Tick (at_ms 0) # scenario_echo) scenario_start)
          = replicate k (BusSend scenario_request) @
            [RespCb (Some (take (unat (s_resp_len (run (Tick (at_ms 0) # scenario_echo) scenario_start)))
                             (s_resp_buf (run (Tick (at_ms 0) # scenario_echo) scenario_start))))
               (s_resp_len (run (Tick (at_ms 0) # scenario_echo) scenario_start))
               0x0A000002 6454]"
  proof -
    from transaction_outcome [OF f(1,2,3,4) n2 f(5) e(1)] obtain n where
      c: "completes (Tick (at_ms 0) # take n scenario_echo_on) scenario_start"
      and o: "if ever_validates (Tick (at_ms 0) # take n scenario_echo_on) scenario_start
        then rdm_validate_response
               (s_resp_buf (run (Tick (at_ms 0) # take n scenario_echo_on) scenario_start))
               (s_resp_len (run (Tick (at_ms 0) # take n scenario_echo_on) scenario_start)) \<and>
           (\<exists>k. 1 \<le> k \<and> k \<le> 1 + unat RDM_RETRY_COUNT \<and>
              trace (run (Tick (at_ms 0) # take n scenario_echo_on) scenario_start)
                = trace scenario_start @ replicate k (BusSend scenario_request) @
                [RespCb (Some (take (unat (s_resp_len (run (Tick (at_ms 0) # take n scenario_echo_on) scenario_start)))
                                 (s_resp_buf (run (Tick (at_ms 0) # take n scenario_echo_on) scenario_start))))
                   (s_resp_len (run (Tick (at_ms 0) # take n scenario_echo_on) scenario_start))
                   0x0A000002 6454])
        else trace (run (Tick (at_ms 0) # take n scenario_echo_on) scenario_start)
             = trace scenario_start @ replicate (1 + unat RDM_RETRY_COUNT) (BusSend scenario_request)
                 @ [RespCb None 0 0x0A000002 6454]"
      by blast
    have "take (length scenario_echo) scenario_echo_on = scenario_echo"
      by (simp add: scenario_echo_on_def)
    with e(2) have "completes (Tick (at_ms 0) # take (length scenario_echo) scenario_echo_on) scenario_start"
      by simp
    from completes_prefix [OF c this] have p: "take n scenario_echo_on = scenario_echo"
      by (simp add: scenario_echo_on_def)
    from o e(3) show ?thesis
      unfolding p by (simp only: f(6) if_True append_Nil)
  qed
  from i t1 e t2 show ?thesis by (intro conjI)
qed

text \<open>
  Claim C3, as stated, fails: with the occupied count below the capacity a request
  longer than 257 bytes is rejected.
\<close>

theorem enqueue_oversize_rejected:
  "unat (s_req_count rdm_boot) < RDM_REQUEST_BUFFER_SIZE
   \<and> \<not> fst (rdm_enqueue_request (replicate 300 0) 300 0x0A000002 6454 rdm_boot)"
  by (simp add: rdm_enqueue_request_def rdm_boot_def RDM_REQUEST_BUFFER_SIZE_def
        RDM_MAX_PACKET_SIZE_def)

text \<open>
  Claim C3, amended. For every call of \<^verbatim>\<open>rdm_enqueue_request\<close> (on a queue that
  satisfies its invariant, with \<open>len\<close> bytes behind the data pointer): the call is
  accepted exactly when the occupied count is below the capacity of 5 and the length is
  at most 257, that is, it is rejected exactly when the queue is at capacity or the
  length exceeds 257; a rejected call leaves the whole module state unchanged; an
  accepted request goes to the end of the queued requests. The queue is served first in,
  first out: a call of the task leaves the queued requests as they are or removes the
  oldest, and the transaction it starts from the idle state sends the bytes of the
  oldest.
\<close>

theorem enqueue_request_fifo:
  assumes "eng_inv s" "unat len \<le> length dat"
  shows "(fst (rdm_enqueue_request dat len ip port s) \<longleftrightarrow>
            unat (s_req_count s) < RDM_REQUEST_BUFFER_SIZE \<and> unat len \<le> RDM_MAX_PACKET_SIZE)
       \<and> (\<not> fst (rdm_enqueue_request dat len ip port s) \<longrightarrow>
            snd (rdm_enqueue_request dat len ip port s) = s)
       \<and> (fst (rdm_enqueue_request dat len ip port s) \<longrightarrow>
            pending (snd (rdm_enqueue_request dat len ip port s))
              = pending s @ [(take (unat len) dat, ip, port)])
       \<and> (pending (rdm_task env s) = pending s \<or> pending (rdm_task env s) = tl (pending s))
       \<and> (s_state s = SM_IDLE \<and> s_req_count s \<noteq> 0 \<longrightarrow>
            trace (rdm_task env s) = trace s @ [BusSend (fst (hd (pending s)))])"
proof -
  have "s_state s = SM_IDLE \<and> s_req_count s \<noteq> 0 \<longrightarrow>
          trace (rdm_task env s) = trace s @ [BusSend (fst (hd (pending s)))]"
    using assms(1) by (simp add: rdm_task_start pending_hd req_view_def)
  moreover have "pending (rdm_task env s) = pending s \<or> pending (rdm_task env s) = tl (pending s)"
    by (simp add: pending_task [OF assms(1)])
  ultimately show ?thesis
    using enqueue_accept_iff [of dat len ip port s] enqueue_reject [of dat len ip port s]
      enqueue_pending [OF assms(1) _ assms(2), of ip port]
    by blast
qed

theorem enqueue_request_fifo_witness:
  "eng_inv rdm_boot \<and> unat (300 :: u16) \<le> length (replicate 300 (0 :: u8))
   \<and> \<not> fst (rdm_enqueue_request (replicate 300 0) 300 0x0A000002 6454 rdm_boot)
   \<and> snd (rdm_enqueue_request (replicate 300 0) 300 0x0A000002 6454 rdm_boot) = rdm_boot
   \<and> unat (26 :: u16) \<le> length scenario_request
   \<and> fst (rdm_enqueue_request scenario_request 26 0x0A000002 6454 rdm_boot)
   \<and> pending (snd (rdm_enqueue_request scenario_request 26 0x0A000002 6454 rdm_boot))
       = pending rdm_boot @ [(take (unat (26 :: u16)) scenario_request, 0x0A000002, 6454)]
   \<and> eng_inv scenario_start \<and> s_state scenario_start = SM_IDLE
   \<and> s_req_count scenario_start \<noteq> 0
   \<and> trace (rdm_task (at_ms 0) scenario_start)
       = trace scenario_start @ [BusSend (fst (hd (pending scenario_start)))]"
proof -
  have l1: "unat (300 :: u16) \<le> length (replicate 300 (0 :: u8))" by simp
  have l2: "unat (26 :: u16) \<le> length scenario_request" by (simp add: scenario_request_def)
  have r: "\<not> fst (rdm_enqueue_request (replicate 300 0) 300 0x0A000002 6454 rdm_boot)"
    by (simp add: rdm_enqueue_request_def rdm_boot_def RDM_REQUEST_BUFFER_SIZE_def
          RDM_MAX_PACKET_SIZE_def)
  have a: "fst (rdm_enqueue_request scenario_request 26 0x0A000002 6454 rdm_boot)"
    by (simp add: rdm_enqueue_request_def rdm_boot_def RDM_REQUEST_BUFFER_SIZE_def
          RDM_MAX_PACKET_SIZE_def Let_def)
  note f = scenario_start_facts
  from enqueue_request_fifo [OF eng_inv_boot l1, of "0x0A000002" 6454 "at_ms 0"] r
  have 1: "snd (rdm_enqueue_request (replicate 300 0) 300 0x0A000002 6454 rdm_boot) = rdm_boot"
    by blast
  from enqueue_request_fifo [OF eng_inv_boot l2, of "0x0A000002" 6454 "at_ms 0"] a
  have 2: "pending (snd (rdm_enqueue_request scenario_request 26 0x0A000002 6454 rdm_boot))
       = pending rdm_boot @ [(take (unat (26 :: u16)) scenario_request, 0x0A000002, 6454)]"
    by blast
  from enqueue_request_fifo [OF f(1) l2, of "0x0A000002" 6454 "at_ms 0"] f(2,3)
  have 3: "trace (rdm_task (at_ms 0) scenario_start)
       = trace scenario_start @ [BusSend (fst (hd (pending scenario_start)))]"
    by blast
  from eng_inv_boot l1 r 1 l2 a 2 f(1,2,3) 3 show ?thesis by (intro conjI)
qed

lemma rdm_checksum_0 [simp]: "rdm_checksum buf 0 = 0"
  by (simp add: rdm_checksum_def)

lemma validate_with_trailing:
  assumes "unat (buf ! 2) + 2 < unat len"
    "buf ! 0 = RDM_SC_RDM" "buf ! 1 = RDM_SC_SUB_MESSAGE"
    "rdm_checksum buf (ucast (buf ! 2))
       = push_bit 8 (ucast (buf ! unat (buf ! 2))) OR ucast (buf ! (unat (buf ! 2) + 1))"
  shows "rdm_validate_response buf len"
proof -
  have l4: "\<not> len < 4"
  proof
    assume "len < 4"
    then have "unat len < 4" by (simp add: word_less_nat_alt)
    with assms(1) have m: "unat (buf ! 2) = 0" by arith
    then have z: "buf ! 2 = 0" by (simp add: unat_eq_0)
    have "unat (push_bit 8 (ucast (buf ! 0)) OR ucast (buf ! 1) :: u16) = 204 * 256 + 1"
      unfolding be16 assms(2,3) by (simp add: RDM_SC_RDM_def RDM_SC_SUB_MESSAGE_def)
    moreover from assms(4) have "(push_bit 8 (ucast (buf ! 0)) OR ucast (buf ! 1) :: u16) = 0"
      by (simp add: z)
    ultimately show False by simp
  qed
  have "\<not> len < ucast (buf ! 2) + 2"
    using assms(1) by (simp add: word_less_nat_alt unat_msg_len_plus2)
  with l4 assms(2,3,4) show ?thesis
    by (simp add: rdm_validate_response_def Let_def)
qed

text \<open>
  Claim C9. In the waiting state with a callback registered, let the bytes collected
  by this call of the task begin with the two start codes and carry, right after the
  declared message length, the right checksum of the declared message bytes, and let
  their number strictly exceed the declared length plus two. Then the validation
  accepts them, whatever the bytes after the checksum are, and the call of the task
  ends the transaction by calling the callback once with all the collected bytes and
  their full number, not the declared length.
\<close>

theorem trailing_bytes_forwarded:
  assumes "s_state s = SM_WAITING_RESPONSE" "s_resp_cb s"
    "unat (s_resp_buf (collect_response s) ! 2) + 2 < unat (s_resp_len (collect_response s))"
    "s_resp_buf (collect_response s) ! 0 = RDM_SC_RDM"
    "s_resp_buf (collect_response s) ! 1 = RDM_SC_SUB_MESSAGE"
    "rdm_checksum (s_resp_buf (collect_response s)) (ucast (s_resp_buf (collect_response s) ! 2))
       = push_bit 8 (ucast (s_resp_buf (collect_response s)
                              ! unat (s_resp_buf (collect_response s) ! 2)))
         OR ucast (s_resp_buf (collect_response s)
                     ! (unat (s_resp_buf (collect_response s) ! 2) + 1))"
  shows "rdm_validate_response (s_resp_buf (collect_response s)) (s_resp_len (collect_response s))
     \<and> trace (rdm_task env s) = trace s @
           [RespCb (Some (take (unat (s_resp_len (collect_response s)))
                            (s_resp_buf (collect_response s))))
              (s_resp_len (collect_response s))
              (src_ip (s_req_buf s ! unat (s_active_idx s)))
              (src_port (s_req_buf s ! unat (s_active_idx s)))]
     \<and> s_state (rdm_task env s) = SM_IDLE"
proof -
  have v: "response_valid_now s"
    unfolding response_valid_now_def by (rule validate_with_trailing [OF assms(3-6)])
  then have "response_valid_now s \<or> timed_out env s \<and> \<not> s_retry s < RDM_RETRY_COUNT" ..
  from task_wait_done [OF assms(1) this] v assms(2) show ?thesis
    by (simp add: response_valid_now_def)
qed

lemma scenario_trailing_collect: "collect_response scenario_trailing_wait = scenario_trailing_wait"
  by (rule collect_response_empty) (simp add: scenario_trailing_wait_def rdm_boot_def)

theorem trailing_bytes_forwarded_witness:
  "s_state scenario_trailing_wait = SM_WAITING_RESPONSE \<and> s_resp_cb scenario_trailing_wait
   \<and> unat (s_resp_buf (collect_response scenario_trailing_wait) ! 2) + 2
       < unat (s_resp_len (collect_response scenario_trailing_wait))
   \<and> trace (rdm_task (at_ms 5) scenario_trailing_wait)
       = [BusSend scenario_request,
          RespCb (Some (scenario_request @ [1, 2, 3])) 29 0x0A000002 6454]"
proof -
  have f: "s_state scenario_trailing_wait = SM_WAITING_RESPONSE" "s_resp_cb scenario_trailing_wait"
    "s_resp_buf scenario_trailing_wait = scenario_request @ [1, 2, 3]"
    "s_resp_len scenario_trailing_wait = 29"
    "trace scenario_trailing_wait = [BusSend scenario_request]"
    "s_req_buf scenario_trailing_wait ! unat (s_active_idx scenario_trailing_wait)
       = \<lparr>data = scenario_request, length_r = 26, src_ip = 0x0A000002,
                              src_port = 6454, in_use = True\<rparr>"
    by (simp_all add: scenario_trailing_wait_def rdm_boot_def)
  have g: "unat ((scenario_request @ [1, 2, 3]) ! 2) + 2 < unat (29 :: u16)"
    "(scenario_request @ [1, 2, 3]) ! 0 = RDM_SC_RDM"
    "(scenario_request @ [1, 2, 3]) ! 1 = RDM_SC_SUB_MESSAGE"
    "rdm_checksum (scenario_request @ [1, 2, 3]) (ucast ((scenario_request @ [1, 2, 3]) ! 2))
       = push_bit 8 (ucast ((scenario_request @ [1, 2, 3])
                              ! unat ((scenario_request @ [1, 2, 3]) ! 2)))
         OR ucast ((scenario_request @ [1, 2, 3])
                     ! (unat ((scenario_request @ [1, 2, 3]) ! 2) + 1))"
    "take 29 (scenario_request @ [1, 2, 3]) = scenario_request @ [1, 2, 3]"
    by code_simp+
  from trailing_bytes_forwarded [of scenario_trailing_wait "at_ms 5",
      unfolded scenario_trailing_collect f(1,3,4,5,6), OF refl f(2) g(1-4)]
  have "trace (rdm_task (at_ms 5) scenario_trailing_wait)
       = [BusSend scenario_request,
          RespCb (Some (scenario_request @ [1, 2, 3])) 29 0x0A000002 6454]"
    by (simp add: g(5) del: take_append)
  with f(1,2) g(1) show ?thesis
    unfolding scenario_trailing_collect f(3,4) by (intro conjI)
qed

subsection \<open>Discovery\<close>

lemma mute_pkt_nth2: "disc_mute_pkt u ! 2 = 24"
  by (simp add: disc_mute_pkt_def build_disc_mute_def Let_def memcpy_at_def memset_at_def
        nth_append RDM_MAX_PACKET_SIZE_def)

lemma branch_pkt_nth2: "disc_branch_pkt ! 2 = 36"
  by (simp add: disc_branch_pkt_def build_disc_unique_branch_def Let_def memcpy_at_def
        memset_at_def nth_append RDM_MAX_PACKET_SIZE_def s_disc_lower_def s_disc_upper_def)

lemma mute_neq_branch: "disc_mute_pkt u \<noteq> disc_branch_pkt"
proof
  assume "disc_mute_pkt u = disc_branch_pkt"
  then have "disc_mute_pkt u ! 2 = disc_branch_pkt ! 2" by simp
  then show False by (simp add: mute_pkt_nth2 branch_pkt_nth2)
qed

lemma mute_pkt_uid:
  assumes "length u = 6" "i < 6"
  shows "disc_mute_pkt u ! (3 + i) = u ! i"
  using assms
  by (simp add: disc_mute_pkt_def build_disc_mute_def Let_def memcpy_at_def memset_at_def
        nth_append RDM_MAX_PACKET_SIZE_def)

lemma mute_pkt_inj:
  assumes "length u = 6" "length v = 6" "disc_mute_pkt u = disc_mute_pkt v"
  shows "u = v"
proof (rule nth_equalityI)
  show "length u = length v" using assms by simp
  fix i assume "i < length u"
  then have i: "i < 6" using assms by simp
  from assms(3) have "disc_mute_pkt u ! (3 + i) = disc_mute_pkt v ! (3 + i)" by simp
  then show "u ! i = v ! i" by (simp add: mute_pkt_uid [OF assms(1) i] mute_pkt_uid [OF assms(2) i])
qed

lemma decode_length:
  "length uid = 6 \<Longrightarrow> length (disc_decode_uid resp n i uid) = 6"
proof (induction "6 - i" arbitrary: i uid)
  case 0
  then show ?case by (subst disc_decode_uid.simps) simp
next
  case (Suc k)
  then have i: "i < 6" by simp
  show ?case
  proof (cases "n \<ge> 17")
    case True
    from Suc(2) have "k = 6 - (i + 1)" by simp
    from Suc(1) [OF this, of "uid[i := (resp ! (1 + i * 2) AND 0x0F)
                            OR push_bit 4 (resp ! (1 + 1 + i * 2) AND 0x0F)]"] Suc(3) i True
    show ?thesis by (subst disc_decode_uid.simps) simp
  next
    case False
    with i show ?thesis by (subst disc_decode_uid.simps) simp
  qed
qed

lemma decode_short: "n < 17 \<Longrightarrow> disc_decode_uid resp n 0 (replicate 6 0) = replicate 6 0"
  by (subst disc_decode_uid.simps) simp

lemma dev_uid_length: "length (dev_uid d) = 6"
  by (simp add: dev_uid_def decode_length)

lemma disc_sent_Suc:
  "j < length devs \<Longrightarrow>
   disc_sent devs (Suc j)
     = disc_sent devs j @ [BusSend disc_branch_pkt, BusSend (disc_mute_pkt (dev_uid (devs ! j)))]"
  by (simp add: disc_sent_def take_Suc_conv_app_nth)

lemma disc_sent_set:
  "set (disc_sent devs j)
     = (if j = 0 \<or> devs = [] then {} else {BusSend disc_branch_pkt})
       \<union> (\<lambda>d. BusSend (disc_mute_pkt (dev_uid d))) ` set (take j devs)"
  by (auto simp: disc_sent_def)

lemma sim_bus_reply:
  assumes "well_formed_devices devs" "j \<le> length devs"
  shows "sim_bus devs (disc_sent devs j @ [BusSend disc_branch_pkt])
           = (if j < length devs then devs ! j else [])"
proof -
  let ?sent = "disc_sent devs j @ [BusSend disc_branch_pkt]"
  let ?P = "\<lambda>d. BusSend (disc_mute_pkt (dev_uid d)) \<notin> set ?sent"
  from assms(1) have dist: "distinct (map dev_uid devs)" by (simp add: well_formed_devices_def)
  have muted: "\<not> ?P d" if "d \<in> set (take j devs)" for d
    using that by (auto simp: disc_sent_set)
  have unmuted: "?P d" if d: "d \<in> set (drop j devs)" for d
  proof
    assume "BusSend (disc_mute_pkt (dev_uid d)) \<in> set ?sent"
    then obtain d' where d': "d' \<in> set (take j devs)"
      and e: "disc_mute_pkt (dev_uid d) = disc_mute_pkt (dev_uid d')"
      by (auto simp: disc_sent_set mute_neq_branch split: if_splits)
    have u: "dev_uid d = dev_uid d'"
      by (rule mute_pkt_inj [OF dev_uid_length dev_uid_length e])
    from dist have "distinct (map dev_uid (take j devs) @ map dev_uid (drop j devs))"
      by (simp flip: map_append)
    then have "set (map dev_uid (take j devs)) \<inter> set (map dev_uid (drop j devs)) = {}"
      by simp
    with d d' u show False by auto
  qed
  have "filter ?P devs = filter ?P (take j devs) @ filter ?P (drop j devs)"
    by (simp flip: filter_append)
  also have "filter ?P (take j devs) = []" using muted by (simp add: filter_empty_conv)
  also have "filter ?P (drop j devs) = drop j devs" using unmuted by (simp add: filter_id_conv)
  finally have f: "filter ?P devs = drop j devs" by simp
  show ?thesis
  proof (cases "j < length devs")
    case True
    then have "drop j devs = devs ! j # drop (Suc j) devs" by (simp add: Cons_nth_drop_Suc)
    with True f show ?thesis by (simp add: sim_bus_def)
  next
    case False
    with f show ?thesis by (simp add: sim_bus_def)
  qed
qed

lemma send_fields:
  "trace (rdm_bus_send d l s) = trace s @ [BusSend (take (unat l) d)]"
  "s_tod (rdm_bus_send d l s) = s_tod s"
  "s_disc_tod_count (rdm_bus_send d l s) = s_disc_tod_count s"
  by (simp_all add: rdm_bus_send_eq)

lemma add_fields:
  "trace (disc_tod_add u s) = trace s"
  "unat (s_disc_tod_count s) < 256 \<Longrightarrow>
     s_tod (disc_tod_add u s) = (s_tod s)[unat (s_disc_tod_count s) := take 6 u]"
  "unat (s_disc_tod_count s) < 256 \<Longrightarrow>
     s_disc_tod_count (disc_tod_add u s) = s_disc_tod_count s + 1"
  by (simp_all add: disc_tod_add_def RDM_TOD_MAX_DEVICES_def)

lemma unat_tod_count_suc: "unat (c :: u16) < 256 \<Longrightarrow> unat (c + 1) = unat c + 1"
  by (simp add: unat_word_ariths)

lemma branch_send: "BusSend (take (unat (38 :: u16))
    (fst (build_disc_unique_branch s_disc_lower s_disc_upper))) = BusSend disc_branch_pkt"
  by (simp add: disc_branch_pkt_def)

lemma mute_send: "BusSend (take (unat (26 :: u16)) (fst (build_disc_mute u)))
    = BusSend (disc_mute_pkt u)"
  by (simp add: disc_mute_pkt_def)

lemma disc_loop_stop: "\<not> a < 64 \<Longrightarrow> disc_loop bus n0 a s = s"
  by (subst disc_loop_unfold) simp

lemma disc_loop_silent:
  assumes "a < 64"
    "length (rdm_bus_receive RDM_MAX_PACKET_SIZE []
       (bus (drop n0 (trace (rdm_bus_send
          (fst (build_disc_unique_branch s_disc_lower s_disc_upper)) 38 s))))) < 7"
  shows "disc_loop bus n0 a s
       = rdm_bus_send (fst (build_disc_unique_branch s_disc_lower s_disc_upper)) 38 s"
  using assms by (subst disc_loop_unfold) (simp only: Let_def if_True)

lemma disc_loop_reply:
  assumes "a < 64"
    "\<not> length (rdm_bus_receive RDM_MAX_PACKET_SIZE []
       (bus (drop n0 (trace (rdm_bus_send
          (fst (build_disc_unique_branch s_disc_lower s_disc_upper)) 38 s))))) < 7"
    "resp = rdm_bus_receive RDM_MAX_PACKET_SIZE []
       (bus (drop n0 (trace (rdm_bus_send
          (fst (build_disc_unique_branch s_disc_lower s_disc_upper)) 38 s))))"
    "uid = disc_decode_uid resp (length resp) 0 (replicate 6 0)"
  shows "disc_loop bus n0 a s
       = disc_loop bus n0 (a + 1)
           (disc_tod_add uid
              (rdm_bus_send (fst (build_disc_mute uid)) 26
                 (rdm_bus_send (fst (build_disc_unique_branch s_disc_lower s_disc_upper)) 38 s)))"
  using assms(1,2) unfolding assms(3,4)
  by (subst disc_loop_unfold) (simp only: Let_def if_True if_False)

lemma disc_loop_sim:
  assumes "well_formed_devices devs" "length (s_tod s) = 256"
    "unat a = j" "j \<le> length devs" "j \<le> 64"
    "trace s = tr0 @ disc_sent devs j" "length tr0 = n0"
    "unat (s_disc_tod_count s) = j"
    "take j (s_tod s) = map dev_uid (take j devs)"
  shows "unat (s_disc_tod_count (disc_loop (sim_bus devs) n0 a s)) = min (length devs) 64
     \<and> take (min (length devs) 64) (s_tod (disc_loop (sim_bus devs) n0 a s))
         = map dev_uid (take (min (length devs) 64) devs)
     \<and> trace (disc_loop (sim_bus devs) n0 a s)
         = tr0 @ disc_sent devs (min (length devs) 64)
             @ (if length devs < 64 then [BusSend disc_branch_pkt] else [])
     \<and> length (s_tod (disc_loop (sim_bus devs) n0 a s)) = 256"
  using assms(2-)
proof (induction "64 - j" arbitrary: a j s)
  case 0
  then have j: "j = 64" by simp
  with 0 have "\<not> a < 64" by (simp add: word_less_nat_alt)
  then have e: "disc_loop (sim_bus devs) n0 a s = s" by (rule disc_loop_stop)
  from j 0 have m: "min (length devs) 64 = 64" "\<not> length devs < 64" by simp_all
  from 0 j show ?case unfolding e m by simp
next
  case (Suc k)
  let ?K = "length devs"
  let ?B = "BusSend disc_branch_pkt"
  from Suc(2) have j: "j < 64" by simp
  with Suc(4) have a: "a < 64" by (simp add: word_less_nat_alt)
  let ?s1 = "rdm_bus_send (fst (build_disc_unique_branch s_disc_lower s_disc_upper)) 38 s"
  have t1: "trace ?s1 = tr0 @ disc_sent devs j @ [?B]"
    by (simp only: send_fields branch_send Suc(7) append_assoc)
  then have d1: "drop n0 (trace ?s1) = disc_sent devs j @ [?B]"
    using Suc(8) by simp
  have reply: "sim_bus devs (drop n0 (trace ?s1)) = (if j < ?K then devs ! j else [])"
    unfolding d1 by (rule sim_bus_reply [OF assms(1) Suc(5)])
  show ?case
  proof (cases "j < ?K")
    case False
    with Suc(5) have jK: "j = ?K" by simp
    from False reply have "rdm_bus_receive RDM_MAX_PACKET_SIZE []
        (sim_bus devs (drop n0 (trace ?s1))) = []" by simp
    then have "length (rdm_bus_receive RDM_MAX_PACKET_SIZE []
        (sim_bus devs (drop n0 (trace ?s1)))) < 7" by simp
    from disc_loop_silent [where bus = "sim_bus devs", OF a this] have e: "disc_loop (sim_bus devs) n0 a s = ?s1" .
    from jK j have m: "min ?K 64 = j" "?K < 64" by simp_all
    have c: "s_disc_tod_count ?s1 = s_disc_tod_count s" "s_tod ?s1 = s_tod s"
      by (simp_all only: send_fields)
    show ?thesis unfolding e using m t1 c Suc(3,9,10) by simp
  next
    case True
    let ?d = "devs ! j"
    from True reply have r: "rdm_bus_receive RDM_MAX_PACKET_SIZE []
        (sim_bus devs (drop n0 (trace ?s1))) = collected ?d"
      by (simp add: collected_def)
    from True assms(1) have l17: "17 \<le> length (collected ?d)"
      by (simp add: well_formed_devices_def)
    then have nl: "\<not> length (rdm_bus_receive RDM_MAX_PACKET_SIZE []
        (sim_bus devs (drop n0 (trace ?s1)))) < 7" unfolding r by simp
    let ?uid = "dev_uid ?d"
    let ?s2 = "rdm_bus_send (fst (build_disc_mute ?uid)) 26 ?s1"
    let ?s3 = "disc_tod_add ?uid ?s2"
    have e: "disc_loop (sim_bus devs) n0 a s = disc_loop (sim_bus devs) n0 (a + 1) ?s3"
      by (rule disc_loop_reply [where bus = "sim_bus devs", OF a nl r [symmetric]])
         (simp add: dev_uid_def)
    have c2: "unat (s_disc_tod_count ?s2) = j" "unat (s_disc_tod_count ?s2) < 256"
      using Suc(9) j by (simp_all add: send_fields)
    have t3: "trace ?s3 = tr0 @ disc_sent devs (Suc j)"
      by (simp only: add_fields send_fields branch_send mute_send Suc(7) disc_sent_Suc [OF True])
         simp
    have c3: "unat (s_disc_tod_count ?s3) = Suc j"
      using c2 by (simp add: add_fields unat_tod_count_suc)
    have tod3: "s_tod ?s3 = (s_tod s)[j := ?uid]"
      using c2 by (simp add: add_fields send_fields dev_uid_length)
    have l3: "length (s_tod ?s3) = 256" using Suc(3) by (simp add: tod3)
    have "take (Suc j) ((s_tod s)[j := ?uid]) = take j (s_tod s) @ [?uid]"
      using Suc(3) j by (simp add: take_Suc_conv_app_nth)
    then have tk3: "take (Suc j) (s_tod ?s3) = map dev_uid (take (Suc j) devs)"
      using True Suc(10) by (simp add: tod3 take_Suc_conv_app_nth)
    from Suc(2) have k: "k = 64 - Suc j" by simp
    from a Suc(4) have a1: "unat (a + 1) = Suc j" by (simp add: unat_attempt_suc)
    from True have j1: "Suc j \<le> ?K" by simp
    from j have j64: "Suc j \<le> 64" by simp
    from Suc(1) [OF k l3 a1 j1 j64 t3 Suc(8) c3 tk3]
    show ?thesis unfolding e .
  qed
qed

lemma branch_attempts_simps [simp]:
  "branch_attempts [] = 0"
  "branch_attempts (BusSend disc_branch_pkt # evs) = Suc (branch_attempts evs)"
  "branch_attempts (BusSend (disc_mute_pkt u) # evs) = branch_attempts evs"
  "branch_attempts (xs @ ys) = branch_attempts xs + branch_attempts ys"
  by (simp_all add: branch_attempts_def mute_neq_branch)

lemma branch_attempts_sent: "branch_attempts (disc_sent devs j) = min j (length devs)"
proof -
  have "branch_attempts (concat (map (\<lambda>d. [BusSend disc_branch_pkt,
          BusSend (disc_mute_pkt (dev_uid d))]) xs)) = length xs" for xs
    by (induction xs) simp_all
  then show ?thesis by (simp add: disc_sent_def min.commute)
qed

lemma disc_loop_attempts:
  "\<exists>sent. trace (disc_loop bus n0 a s) = trace s @ sent \<and> branch_attempts sent \<le> 64 - unat a"
proof (induction "64 - unat a" arbitrary: a s)
  case 0
  then have "\<not> a < 64" by (simp add: word_less_nat_alt)
  then show ?case by (simp add: disc_loop_stop)
next
  case (Suc k)
  then have a: "a < 64" by (simp add: word_less_nat_alt)
  let ?s1 = "rdm_bus_send (fst (build_disc_unique_branch s_disc_lower s_disc_upper)) 38 s"
  let ?resp = "rdm_bus_receive RDM_MAX_PACKET_SIZE [] (bus (drop n0 (trace ?s1)))"
  let ?uid = "disc_decode_uid ?resp (length ?resp) 0 (replicate 6 0)"
  let ?s3 = "disc_tod_add ?uid (rdm_bus_send (fst (build_disc_mute ?uid)) 26 ?s1)"
  have t1: "trace ?s1 = trace s @ [BusSend disc_branch_pkt]"
    by (simp only: send_fields branch_send)
  show ?case
  proof (cases "length ?resp < 7")
    case True
    from disc_loop_silent [where bus = bus, OF a True]
    have "trace (disc_loop bus n0 a s) = trace s @ [BusSend disc_branch_pkt]"
      by (simp only: t1)
    moreover have "branch_attempts [BusSend disc_branch_pkt] \<le> 64 - unat a"
      using Suc(2) by simp
    ultimately show ?thesis by blast
  next
    case False
    from disc_loop_reply [where bus = bus, OF a False refl refl]
    have e: "disc_loop bus n0 a s = disc_loop bus n0 (a + 1) ?s3" .
    have t3: "trace ?s3 = trace s @ [BusSend disc_branch_pkt, BusSend (disc_mute_pkt ?uid)]"
      by (simp only: add_fields send_fields branch_send mute_send) simp
    from Suc(2) a have "k = 64 - unat (a + 1)" by (simp add: unat_attempt_suc)
    from Suc(1) [OF this, of ?s3] obtain sent where
      s: "trace (disc_loop bus n0 (a + 1) ?s3) = trace ?s3 @ sent"
      and b: "branch_attempts sent \<le> 64 - unat (a + 1)" by blast
    from s have "trace (disc_loop bus n0 a s)
        = trace s @ ([BusSend disc_branch_pkt, BusSend (disc_mute_pkt ?uid)] @ sent)"
      unfolding e t3 by simp
    moreover have "branch_attempts ([BusSend disc_branch_pkt, BusSend (disc_mute_pkt ?uid)] @ sent)
        \<le> 64 - unat a"
      using b a Suc(2) by (simp add: unat_attempt_suc)
    ultimately show ?thesis by blast
  qed
qed

lemma run_discovery_cycle_sim:
  assumes "well_formed_devices devs" "length (s_tod s) = 256"
  shows "unat (s_disc_tod_count (run_discovery_cycle (sim_bus devs) s)) = min (length devs) 64
     \<and> take (min (length devs) 64) (s_tod (run_discovery_cycle (sim_bus devs) s))
         = map dev_uid (take (min (length devs) 64) devs)
     \<and> trace (run_discovery_cycle (sim_bus devs) s)
         = trace s @ disc_sent devs (min (length devs) 64)
             @ (if length devs < 64 then [BusSend disc_branch_pkt] else [])"
proof -
  let ?s0 = "s\<lparr>s_disc_tod_count := 0, g_rdm_bus_busy := True\<rparr>"
  have "unat (s_disc_tod_count (disc_loop (sim_bus devs) (length (trace s)) 0 ?s0))
          = min (length devs) 64
     \<and> take (min (length devs) 64) (s_tod (disc_loop (sim_bus devs) (length (trace s)) 0 ?s0))
         = map dev_uid (take (min (length devs) 64) devs)
     \<and> trace (disc_loop (sim_bus devs) (length (trace s)) 0 ?s0)
         = trace s @ disc_sent devs (min (length devs) 64)
             @ (if length devs < 64 then [BusSend disc_branch_pkt] else [])
     \<and> length (s_tod (disc_loop (sim_bus devs) (length (trace s)) 0 ?s0)) = 256"
    by (rule disc_loop_sim [OF assms(1), where j = 0])
       (simp_all add: assms(2) disc_sent_def)
  then show ?thesis by (simp add: run_discovery_cycle_def)
qed

text \<open>
  Claim C4, as stated, fails beyond the cap: with 65 well-formed devices a cycle ends
  with 64 entries.
\<close>

theorem discovery_stops_at_cap:
  "well_formed_devices (map sim_device [0..<65]) \<and> length (map sim_device [0..<65]) = 65
   \<and> unat (s_disc_tod_count (run_discovery_cycle (sim_bus (map sim_device [0..<65])) rdm_boot))
       = 64"
proof -
  have w: "well_formed_devices (map sim_device [0..<65])" by code_simp
  have l: "length (s_tod rdm_boot) = 256" by (simp add: rdm_boot_def RDM_TOD_MAX_DEVICES_def)
  from run_discovery_cycle_sim [OF w l] w show ?thesis by simp
qed

text \<open>
  Claim C4, amended. On a simulated bus with \<open>K \<le> 64\<close> devices whose replies are
  collected with at least 17 bytes and decode to pairwise different UIDs, each replying
  until it is muted, one discovery cycle counts exactly \<open>K\<close> entries, the first \<open>K\<close>
  entries of the table are the decoded UIDs in the order of discovery, and the cycle
  sends at most \<open>K + 1\<close> unique-branch requests; the call of the task that runs the
  cycle publishes this count and table. On any bus whatsoever a cycle sends at most 64
  unique-branch requests.
\<close>

theorem discovery_converges:
  assumes "well_formed_devices devs" "length devs \<le> 64"
    "length (s_tod s) = RDM_TOD_MAX_DEVICES"
  shows "unat (s_disc_tod_count (run_discovery_cycle (sim_bus devs) s)) = length devs
     \<and> take (length devs) (s_tod (run_discovery_cycle (sim_bus devs) s)) = map dev_uid devs
     \<and> (\<exists>sent. trace (run_discovery_cycle (sim_bus devs) s) = trace s @ sent
                \<and> branch_attempts sent \<le> length devs + 1)
     \<and> (\<exists>sent. trace (run_discovery_cycle bus s) = trace s @ sent
                \<and> branch_attempts sent \<le> 64)
     \<and> (runs_discovery env s \<and> disc_bus env = sim_bus devs \<longrightarrow>
           unat (s_tod_count (rdm_task env s)) = length devs
           \<and> take (length devs) (s_tod (rdm_task env s)) = map dev_uid devs)"
proof -
  from assms(2) have m: "min (length devs) 64 = length devs" by simp
  from assms(3) have l: "length (s_tod s) = 256" by (simp add: RDM_TOD_MAX_DEVICES_def)
  note c = run_discovery_cycle_sim [OF assms(1) l, unfolded m]
  have 1: "\<exists>sent. trace (run_discovery_cycle (sim_bus devs) s) = trace s @ sent
                \<and> branch_attempts sent \<le> length devs + 1"
  proof (intro exI conjI)
    show "trace (run_discovery_cycle (sim_bus devs) s)
        = trace s @ (disc_sent devs (length devs)
             @ (if length devs < 64 then [BusSend disc_branch_pkt] else []))"
      using c by simp
    show "branch_attempts (disc_sent devs (length devs)
             @ (if length devs < 64 then [BusSend disc_branch_pkt] else [])) \<le> length devs + 1"
      by (simp add: branch_attempts_sent)
  qed
  have 2: "\<exists>sent. trace (run_discovery_cycle bus s) = trace s @ sent
                \<and> branch_attempts sent \<le> 64"
    using disc_loop_attempts [of bus "length (trace s)" 0
        "s\<lparr>s_disc_tod_count := 0, g_rdm_bus_busy := True\<rparr>"]
    by (simp add: run_discovery_cycle_def)
  have 3: "unat (s_tod_count (rdm_task env s)) = length devs
           \<and> take (length devs) (s_tod (rdm_task env s)) = map dev_uid devs"
    if r: "runs_discovery env s" and b: "disc_bus env = sim_bus devs"
  proof -
    let ?p = "s\<lparr>s_discovery_active := True,
                   s_tod_prev := memcpy_at (s_tod_prev s) 0 (s_tod s) (unat (s_tod_count s)),
                   s_tod_prev_count := s_tod_count s\<rparr>"
    have "length (s_tod ?p) = 256" using l by simp
    from run_discovery_cycle_sim [OF assms(1) this, unfolded m]
    show ?thesis by (simp add: rdm_task_discovery [OF r] b Let_def)
  qed
  from c have 0: "unat (s_disc_tod_count (run_discovery_cycle (sim_bus devs) s)) = length devs"
    "take (length devs) (s_tod (run_discovery_cycle (sim_bus devs) s)) = map dev_uid devs"
    by simp_all
  from 0 1 2 3 show ?thesis by blast
qed

theorem discovery_converges_witness:
  "well_formed_devices [sim_device 1, sim_device 2]
   \<and> length [sim_device 1, sim_device 2] \<le> 64
   \<and> length (s_tod rdm_boot) = RDM_TOD_MAX_DEVICES
   \<and> runs_discovery \<lparr>now_ms = 10000, now_later = 10030,
                       disc_bus = sim_bus [sim_device 1, sim_device 2]\<rparr> rdm_boot
   \<and> unat (s_disc_tod_count
            (run_discovery_cycle (sim_bus [sim_device 1, sim_device 2]) rdm_boot))
       = length [sim_device 1, sim_device 2]
   \<and> take (length [sim_device 1, sim_device 2])
        (s_tod (run_discovery_cycle (sim_bus [sim_device 1, sim_device 2]) rdm_boot))
       = map dev_uid [sim_device 1, sim_device 2]
   \<and> unat (s_tod_count (rdm_task \<lparr>now_ms = 10000, now_later = 10030,
                       disc_bus = sim_bus [sim_device 1, sim_device 2]\<rparr> rdm_boot))
       = length [sim_device 1, sim_device 2]"
proof -
  have w: "well_formed_devices [sim_device 1, sim_device 2]" by code_simp
  have k: "length [sim_device 1, sim_device 2] \<le> 64" by simp
  have l: "length (s_tod rdm_boot) = RDM_TOD_MAX_DEVICES" by (simp add: rdm_boot_def)
  have r: "runs_discovery \<lparr>now_ms = 10000, now_later = 10030,
                       disc_bus = sim_bus [sim_device 1, sim_device 2]\<rparr> rdm_boot"
    by (simp add: runs_discovery_def rdm_boot_def RDM_DISCOVERY_INTERVAL_MS_def)
  have b: "disc_bus \<lparr>now_ms = 10000, now_later = 10030,
                       disc_bus = sim_bus [sim_device 1, sim_device 2]\<rparr>
             = sim_bus [sim_device 1, sim_device 2]" by simp
  from discovery_converges [OF w k l, of "sim_bus [sim_device 1, sim_device 2]"
      "\<lparr>now_ms = 10000, now_later = 10030,
                       disc_bus = sim_bus [sim_device 1, sim_device 2]\<rparr>"] w k l r b
  show ?thesis by blast
qed

lemma receive_ten: "rdm_bus_receive RDM_MAX_PACKET_SIZE [] (replicate 10 0xFE) = replicate 10 0xFE"
  by code_simp

lemma rdm_task_discovery_sim:
  assumes "well_formed_devices devs" "length devs \<le> 64" "length (s_tod s) = 256"
    "runs_discovery env s" "disc_bus env = sim_bus devs"
  shows "unat (s_tod_count (rdm_task env s)) = length devs"
proof -
  let ?p = "s\<lparr>s_discovery_active := True,
                 s_tod_prev := memcpy_at (s_tod_prev s) 0 (s_tod s) (unat (s_tod_count s)),
                 s_tod_prev_count := s_tod_count s\<rparr>"
  from assms(2) have m: "min (length devs) 64 = length devs" by simp
  have "length (s_tod ?p) = 256" using assms(3) by simp
  from run_discovery_cycle_sim [OF assms(1) this, unfolded m]
  show ?thesis by (simp add: rdm_task_discovery [OF assms(4)] assms(5) Let_def)
qed

lemma tod_two_devices_count: "unat (s_tod_count tod_two_devices) = 2"
proof -
  have w: "well_formed_devices [sim_device 1, sim_device 2]" by code_simp
  have r: "runs_discovery \<lparr>now_ms = 10000, now_later = 10030,
                       disc_bus = sim_bus [sim_device 1, sim_device 2]\<rparr> rdm_boot"
    by (simp add: runs_discovery_def rdm_boot_def RDM_DISCOVERY_INTERVAL_MS_def)
  have l: "length (s_tod rdm_boot) = 256" by (simp add: rdm_boot_def RDM_TOD_MAX_DEVICES_def)
  from rdm_task_discovery_sim [OF w _ l r] show ?thesis
    unfolding tod_two_devices_def by simp
qed

text \<open>
  Claim C7, as stated, fails: without any discovery cycle in between, a call of
  \<^verbatim>\<open>rdm_flush_tod\<close> between two calls of \<^verbatim>\<open>rdm_get_tod\<close> makes the second call return
  another table (count 0 instead of 2) and find the changed flag set.
\<close>

theorem flush_between_get_tod:
  "unat (snd (fst (rdm_get_tod tod_two_devices))) = 2
   \<and> unat (snd (fst (rdm_get_tod (run [FlushTod] (snd (rdm_get_tod tod_two_devices)))))) = 0
   \<and> fst (rdm_get_tod (run [FlushTod] (snd (rdm_get_tod tod_two_devices))))
       \<noteq> fst (rdm_get_tod tod_two_devices)
   \<and> rdm_tod_changed (run [FlushTod] (snd (rdm_get_tod tod_two_devices)))"
proof -
  note c = tod_two_devices_count
  have 1: "unat (snd (fst (rdm_get_tod tod_two_devices))) = 2"
    using c by (simp add: rdm_get_tod_def)
  have 2: "unat (snd (fst (rdm_get_tod (run [FlushTod] (snd (rdm_get_tod tod_two_devices)))))) = 0"
    by (simp add: rdm_get_tod_def rdm_flush_tod_def)
  from 1 2 have 3: "fst (rdm_get_tod (run [FlushTod] (snd (rdm_get_tod tod_two_devices))))
       \<noteq> fst (rdm_get_tod tod_two_devices)"
    by (metis zero_neq_numeral)
  have 4: "rdm_tod_changed (run [FlushTod] (snd (rdm_get_tod tod_two_devices)))"
    by (simp add: rdm_tod_changed_def rdm_get_tod_def rdm_flush_tod_def)
  from 1 2 3 4 show ?thesis by (intro conjI)
qed

lemma disc_branch_pkt_bytes:
  "disc_branch_pkt =
     [0xCC, 0x01, 0x24, 0xFF, 0xFF, 0xFF, 0xFF, 0xFF, 0xFF, 0x00, 0x00, 0x00, 0x00, 0x00, 0x00,
      0x00, 0x00, 0x00, 0x00, 0x00, 0x10, 0x00, 0x01, 0x0C,
      0x00, 0x00, 0x00, 0x00, 0x00, 0x00, 0xFF, 0xFF, 0xFF, 0xFF, 0xFF, 0xFF, 0x0D, 0x02]"
  by code_simp

lemma disc_mute_pkt_zero:
  "disc_mute_pkt (replicate 6 0) =
     [0xCC, 0x01, 0x18, 0x00, 0x00, 0x00, 0x00, 0x00, 0x00, 0x00, 0x00, 0x00, 0x00, 0x00, 0x00,
      0x00, 0x00, 0x00, 0x00, 0x00, 0x10, 0x00, 0x02, 0x00, 0x00, 0xF7]"
  by code_simp

lemma disc_loop_first_send:
  assumes "a < 64"
  shows "\<exists>rest. trace (disc_loop bus n0 a s) = trace s @ BusSend disc_branch_pkt # rest"
proof -
  let ?s1 = "rdm_bus_send (fst (build_disc_unique_branch s_disc_lower s_disc_upper)) 38 s"
  let ?resp = "rdm_bus_receive RDM_MAX_PACKET_SIZE [] (bus (drop n0 (trace ?s1)))"
  let ?uid = "disc_decode_uid ?resp (length ?resp) 0 (replicate 6 0)"
  let ?s3 = "disc_tod_add ?uid (rdm_bus_send (fst (build_disc_mute ?uid)) 26 ?s1)"
  have t1: "trace ?s1 = trace s @ [BusSend disc_branch_pkt]"
    by (simp only: send_fields branch_send)
  show ?thesis
  proof (cases "length ?resp < 7")
    case True
    from disc_loop_silent [where bus = bus, OF assms True]
    have "trace (disc_loop bus n0 a s) = trace s @ BusSend disc_branch_pkt # []"
      by (simp only: t1)
    then show ?thesis ..
  next
    case False
    from disc_loop_reply [where bus = bus, OF assms False refl refl]
    have e: "disc_loop bus n0 a s = disc_loop bus n0 (a + 1) ?s3" .
    have t3: "trace ?s3 = trace s @ [BusSend disc_branch_pkt, BusSend (disc_mute_pkt ?uid)]"
      by (simp only: add_fields send_fields branch_send mute_send) simp
    from disc_loop_attempts [of bus n0 "a + 1" ?s3] obtain sent where
      s: "trace (disc_loop bus n0 (a + 1) ?s3) = trace ?s3 @ sent" by blast
    have "trace (disc_loop bus n0 a s)
        = trace s @ BusSend disc_branch_pkt # (BusSend (disc_mute_pkt ?uid) # sent)"
      unfolding e s t3 by simp
    then show ?thesis ..
  qed
qed

lemma attempt_cap:
  "(a :: u8) < 63 \<Longrightarrow> a + 1 < 64"
  "(a :: u8) < 64 \<Longrightarrow> \<not> a < 63 \<Longrightarrow> \<not> a + 1 < 64"
  by (simp_all add: word_less_nat_alt unat_word_ariths)

text \<open>
  Claim C10, as stated, fails: at the 64th attempt a collected reply of ten bytes is
  followed by the mute command and then by the end of the cycle, so a reply shorter
  than 7 bytes is not the only thing that ends a cycle.
\<close>

theorem cap_ends_cycle:
  "length (branch_reply ten_byte_bus 0 rdm_boot) = 10
   \<and> disc_loop ten_byte_bus 0 63 rdm_boot = after_mute (replicate 6 0) rdm_boot
   \<and> trace (disc_loop ten_byte_bus 0 63 rdm_boot)
       = [BusSend disc_branch_pkt, BusSend (disc_mute_pkt (replicate 6 0))]"
proof -
  have r: "branch_reply ten_byte_bus 0 rdm_boot = replicate 10 0xFE"
    by (simp add: branch_reply_def ten_byte_bus_def receive_ten)
  have n: "\<not> length (rdm_bus_receive RDM_MAX_PACKET_SIZE []
       (ten_byte_bus (drop 0 (trace (rdm_bus_send
          (fst (build_disc_unique_branch s_disc_lower s_disc_upper)) 38 rdm_boot))))) < 7"
    by (simp add: ten_byte_bus_def receive_ten)
  have d: "disc_decode_uid (replicate 10 0xFE) (length (replicate 10 (0xFE :: u8))) 0 (replicate 6 0)
      = replicate 6 0"
    by (rule decode_short) simp
  have a: "(63 :: u8) < 64" by simp
  from disc_loop_reply [where bus = ten_byte_bus, OF a n refl refl]
  have "disc_loop ten_byte_bus 0 63 rdm_boot
      = disc_loop ten_byte_bus 0 (63 + 1) (after_mute (replicate 6 0) rdm_boot)"
    unfolding after_mute_def after_branch_def
    by (simp only: ten_byte_bus_def receive_ten d)
  then have e: "disc_loop ten_byte_bus 0 63 rdm_boot = after_mute (replicate 6 0) rdm_boot"
    by (simp add: disc_loop_stop)
  have t: "trace (after_mute (replicate 6 0) rdm_boot)
      = [BusSend disc_branch_pkt, BusSend (disc_mute_pkt (replicate 6 0))]"
    unfolding after_mute_def after_branch_def
    by (simp only: add_fields send_fields branch_send mute_send) (simp add: rdm_boot_def)
  from r e t show ?thesis by simp
qed

text \<open>
  Claim C10, amended. In one pass of the discovery loop (attempt counter \<open>a\<close> below 64,
  room in the table): a collected reply of fewer than 7 bytes ends the cycle right
  after the unique-branch request. A reply of at least 7 bytes does not: the mute
  command for the decoded UID is sent and the UID is added to the table; then, if this
  was not the 64th attempt, the loop goes on and sends the next unique-branch request,
  and if it was, the cycle ends. If the reply has fewer than 17 bytes, the decoded UID
  is all zeros, the bytes sent are the unique-branch request and the \<^verbatim>\<open>DISC_MUTE\<close>
  command addressed to the UID 00:00:00:00:00:00 (command class \<open>0x10\<close>, parameter
  \<open>0x0002\<close>, checksum \<open>0x00F7\<close>), and the all-zero UID is stored as the next entry of the
  table and counted. So a cycle ends on a reply shorter than 7 bytes or at the cap of
  64 attempts, and on nothing else.
\<close>

theorem short_branch_reply:
  assumes "a < 64" "unat (s_disc_tod_count s) < RDM_TOD_MAX_DEVICES"
  shows "(length (branch_reply bus n0 s) < 7 \<longrightarrow> disc_loop bus n0 a s = after_branch s)
     \<and> (7 \<le> length (branch_reply bus n0 s) \<longrightarrow>
          disc_loop bus n0 a s
            = disc_loop bus n0 (a + 1)
                (after_mute (disc_decode_uid (branch_reply bus n0 s)
                               (length (branch_reply bus n0 s)) 0 (replicate 6 0)) s)
          \<and> (a < 63 \<longrightarrow>
               (\<exists>rest. trace (disc_loop bus n0 a s)
                  = trace (after_mute (disc_decode_uid (branch_reply bus n0 s)
                               (length (branch_reply bus n0 s)) 0 (replicate 6 0)) s)
                    @ BusSend disc_branch_pkt # rest))
          \<and> (\<not> a < 63 \<longrightarrow>
               disc_loop bus n0 a s
                 = after_mute (disc_decode_uid (branch_reply bus n0 s)
                               (length (branch_reply bus n0 s)) 0 (replicate 6 0)) s))
     \<and> (7 \<le> length (branch_reply bus n0 s) \<and> length (branch_reply bus n0 s) < 17 \<longrightarrow>
          disc_decode_uid (branch_reply bus n0 s) (length (branch_reply bus n0 s)) 0
              (replicate 6 0) = replicate 6 0
          \<and> trace (after_mute (replicate 6 0) s)
              = trace s @
                [BusSend [0xCC, 0x01, 0x24, 0xFF, 0xFF, 0xFF, 0xFF, 0xFF, 0xFF,
                          0x00, 0x00, 0x00, 0x00, 0x00, 0x00, 0x00, 0x00, 0x00, 0x00, 0x00,
                          0x10, 0x00, 0x01, 0x0C, 0x00, 0x00, 0x00, 0x00, 0x00, 0x00,
                          0xFF, 0xFF, 0xFF, 0xFF, 0xFF, 0xFF, 0x0D, 0x02],
                 BusSend [0xCC, 0x01, 0x18, 0x00, 0x00, 0x00, 0x00, 0x00, 0x00,
                          0x00, 0x00, 0x00, 0x00, 0x00, 0x00, 0x00, 0x00, 0x00, 0x00, 0x00,
                          0x10, 0x00, 0x02, 0x00, 0x00, 0xF7]]
          \<and> s_tod (after_mute (replicate 6 0) s)
              = (s_tod s)[unat (s_disc_tod_count s) := replicate 6 0]
          \<and> s_disc_tod_count (after_mute (replicate 6 0) s) = s_disc_tod_count s + 1)"
proof -
  let ?r = "branch_reply bus n0 s"
  let ?u = "disc_decode_uid ?r (length ?r) 0 (replicate 6 0)"
  have silent: "disc_loop bus n0 a s = after_branch s" if "length ?r < 7"
    using disc_loop_silent [where bus = bus, OF assms(1)] that
    by (simp add: branch_reply_def after_branch_def)
  have go: "disc_loop bus n0 a s = disc_loop bus n0 (a + 1) (after_mute ?u s)"
    if "7 \<le> length ?r"
  proof -
    from that have "\<not> length (rdm_bus_receive RDM_MAX_PACKET_SIZE []
       (bus (drop n0 (trace (rdm_bus_send
          (fst (build_disc_unique_branch s_disc_lower s_disc_upper)) 38 s))))) < 7"
      by (simp add: branch_reply_def after_branch_def)
    from disc_loop_reply [where bus = bus, OF assms(1) this refl refl]
    show ?thesis by (simp only: branch_reply_def after_branch_def after_mute_def)
  qed
  have more: "\<exists>rest. trace (disc_loop bus n0 a s)
      = trace (after_mute ?u s) @ BusSend disc_branch_pkt # rest"
    if "7 \<le> length ?r" "a < 63"
    using disc_loop_first_send [OF attempt_cap(1) [OF that(2)], of bus n0 "after_mute ?u s"]
    unfolding go [OF that(1)] .
  have cap: "disc_loop bus n0 a s = after_mute ?u s" if "7 \<le> length ?r" "\<not> a < 63"
    unfolding go [OF that(1)]
    by (rule disc_loop_stop [OF attempt_cap(2) [OF assms(1) that(2)]])
  have zero: "?u = replicate 6 0" if "length ?r < 17" using that by (rule decode_short)
  from assms(2) have c: "unat (s_disc_tod_count s) < 256" by (simp add: RDM_TOD_MAX_DEVICES_def)
  have "trace (after_mute (replicate 6 0) s)
              = trace s @ [BusSend disc_branch_pkt, BusSend (disc_mute_pkt (replicate 6 0))]"
    unfolding after_mute_def after_branch_def
    by (simp only: add_fields send_fields branch_send mute_send) simp
  then have tr: "trace (after_mute (replicate 6 0) s)
              = trace s @
                [BusSend [0xCC, 0x01, 0x24, 0xFF, 0xFF, 0xFF, 0xFF, 0xFF, 0xFF,
                          0x00, 0x00, 0x00, 0x00, 0x00, 0x00, 0x00, 0x00, 0x00, 0x00, 0x00,
                          0x10, 0x00, 0x01, 0x0C, 0x00, 0x00, 0x00, 0x00, 0x00, 0x00,
                          0xFF, 0xFF, 0xFF, 0xFF, 0xFF, 0xFF, 0x0D, 0x02],
                 BusSend [0xCC, 0x01, 0x18, 0x00, 0x00, 0x00, 0x00, 0x00, 0x00,
                          0x00, 0x00, 0x00, 0x00, 0x00, 0x00, 0x00, 0x00, 0x00, 0x00, 0x00,
                          0x10, 0x00, 0x02, 0x00, 0x00, 0xF7]]"
    by (simp only: disc_branch_pkt_bytes disc_mute_pkt_zero)
  have td: "s_tod (after_mute (replicate 6 0) s)
              = (s_tod s)[unat (s_disc_tod_count s) := replicate 6 0]"
    "s_disc_tod_count (after_mute (replicate 6 0) s) = s_disc_tod_count s + 1"
    unfolding after_mute_def after_branch_def using c
    by (simp_all add: add_fields send_fields)
  show ?thesis
  proof (intro conjI impI)
    assume "length ?r < 7"
    then show "disc_loop bus n0 a s = after_branch s" by (rule silent)
  next
    assume h: "7 \<le> length ?r"
    then show "disc_loop bus n0 a s = disc_loop bus n0 (a + 1) (after_mute ?u s)" by (rule go)
    { assume "a < 63"
      with h show "\<exists>rest. trace (disc_loop bus n0 a s)
          = trace (after_mute ?u s) @ BusSend disc_branch_pkt # rest" by (rule more) }
    { assume "\<not> a < 63"
      with h show "disc_loop bus n0 a s = after_mute ?u s" by (rule cap) }
  next
    assume h: "7 \<le> length ?r \<and> length ?r < 17"
    then show "?u = replicate 6 0" by (simp add: zero)
  qed (rule tr td)+
qed

lemma ten_byte_bus_reply: "branch_reply ten_byte_bus n0 s = replicate 10 0xFE"
  by (simp add: branch_reply_def ten_byte_bus_def receive_ten)

theorem short_branch_reply_witness:
  "unat (s_disc_tod_count rdm_boot) < RDM_TOD_MAX_DEVICES
   \<and> length (branch_reply (\<lambda>sent. []) 0 rdm_boot) < 7
   \<and> disc_loop (\<lambda>sent. []) 0 0 rdm_boot = after_branch rdm_boot
   \<and> 7 \<le> length (branch_reply ten_byte_bus 0 rdm_boot)
   \<and> length (branch_reply ten_byte_bus 0 rdm_boot) < 17
   \<and> (\<exists>rest. trace (disc_loop ten_byte_bus 0 0 rdm_boot)
         = trace (after_mute (replicate 6 0) rdm_boot) @ BusSend disc_branch_pkt # rest)
   \<and> disc_loop ten_byte_bus 0 62 rdm_boot
       = disc_loop ten_byte_bus 0 (62 + 1) (after_mute (replicate 6 0) rdm_boot)
   \<and> disc_loop ten_byte_bus 0 63 rdm_boot = after_mute (replicate 6 0) rdm_boot
   \<and> s_tod (after_mute (replicate 6 0) rdm_boot)
       = (s_tod rdm_boot)[unat (s_disc_tod_count rdm_boot) := replicate 6 0]
   \<and> s_disc_tod_count (after_mute (replicate 6 0) rdm_boot) = s_disc_tod_count rdm_boot + 1"
proof -
  have a: "(0 :: u8) < 64" "(62 :: u8) < 64" "(63 :: u8) < 64" "(0 :: u8) < 63"
    "\<not> (63 :: u8) < 63" by simp_all
  have c: "unat (s_disc_tod_count rdm_boot) < RDM_TOD_MAX_DEVICES"
    by (simp add: rdm_boot_def RDM_TOD_MAX_DEVICES_def)
  have s: "length (branch_reply (\<lambda>sent. []) 0 rdm_boot) < 7"
    by (simp add: branch_reply_def)
  have r: "7 \<le> length (branch_reply ten_byte_bus 0 rdm_boot)"
    "length (branch_reply ten_byte_bus 0 rdm_boot) < 17"
    by (simp_all add: ten_byte_bus_reply)
  let ?u = "disc_decode_uid (branch_reply ten_byte_bus 0 rdm_boot)
              (length (branch_reply ten_byte_bus 0 rdm_boot)) 0 (replicate 6 0)"
  note quiet = short_branch_reply [OF a(1) c, of "\<lambda>sent. []" 0]
  note first = short_branch_reply [OF a(1) c, of ten_byte_bus 0]
  note late = short_branch_reply [OF a(2) c, of ten_byte_bus 0]
  note last = short_branch_reply [OF a(3) c, of ten_byte_bus 0]
  from quiet [THEN conjunct1, THEN mp, OF s]
  have w1: "disc_loop (\<lambda>sent. []) 0 0 rdm_boot = after_branch rdm_boot" .
  note z = first [THEN conjunct2, THEN conjunct2, THEN mp, OF conjI [OF r]]
  from z have u: "?u = replicate 6 0" by (rule conjunct1)
  from z have td: "s_tod (after_mute (replicate 6 0) rdm_boot)
       = (s_tod rdm_boot)[unat (s_disc_tod_count rdm_boot) := replicate 6 0]"
    "s_disc_tod_count (after_mute (replicate 6 0) rdm_boot) = s_disc_tod_count rdm_boot + 1"
    by blast+
  from first [THEN conjunct2, THEN conjunct1, THEN mp, OF r(1), THEN conjunct2, THEN conjunct1,
      THEN mp, OF a(4)]
  have m0: "\<exists>rest. trace (disc_loop ten_byte_bus 0 0 rdm_boot)
         = trace (after_mute (replicate 6 0) rdm_boot) @ BusSend disc_branch_pkt # rest"
    unfolding u .
  from late [THEN conjunct2, THEN conjunct1, THEN mp, OF r(1), THEN conjunct1]
  have g62: "disc_loop ten_byte_bus 0 62 rdm_boot
       = disc_loop ten_byte_bus 0 (62 + 1) (after_mute (replicate 6 0) rdm_boot)"
    unfolding u .
  from last [THEN conjunct2, THEN conjunct1, THEN mp, OF r(1), THEN conjunct2, THEN conjunct2,
      THEN mp, OF a(5)]
  have c63: "disc_loop ten_byte_bus 0 63 rdm_boot = after_mute (replicate 6 0) rdm_boot"
    unfolding u .
  from c s w1 r m0 g62 c63 td show ?thesis by (intro conjI)
qed

end
